theory Spec2Isabelle
  imports Main "HOL-Library.Sublist"
begin

section \<open>Python strings and the library functions the program calls\<close>

text \<open>
  The program under study is \<^verbatim>\<open>render_text_with_latex\<close> of \<^verbatim>\<open>src/app.py\<close>.
  A Python \<^verbatim>\<open>str\<close> is a sequence of Unicode code points, so a character is modelled
  as its code point and a string as a list of them; \<open>py\<close> turns an ASCII literal
  into such a list.
\<close>

type_synonym pychar = nat
type_synonym pystr = "pychar list"

definition py :: "string \<Rightarrow> pystr" where
  "py cs = map of_char cs"

abbreviation NL :: pychar where "NL \<equiv> 10"
abbreviation DOLLAR :: pychar where "DOLLAR \<equiv> 36"
abbreviation LPAREN :: pychar where "LPAREN \<equiv> 40"
abbreviation RPAREN :: pychar where "RPAREN \<equiv> 41"
abbreviation LT :: pychar where "LT \<equiv> 60"
abbreviation GT :: pychar where "GT \<equiv> 62"
abbreviation LBRACKET :: pychar where "LBRACKET \<equiv> 91"
abbreviation BS :: pychar where "BS \<equiv> 92"
abbreviation RBRACKET :: pychar where "RBRACKET \<equiv> 93"
abbreviation BACKTICK :: pychar where "BACKTICK \<equiv> 96"

text \<open>
  \<^verbatim>\<open>str.isspace\<close> on one character; the same set is what \<^verbatim>\<open>\s\<close> matches in a
  \<^verbatim>\<open>str\<close> pattern and what \<^verbatim>\<open>str.strip()\<close> removes: U+0009..U+000D, U+001C..U+0020,
  U+0085, U+00A0, U+1680, U+2000..U+200A, U+2028, U+2029, U+202F, U+205F, U+3000.
\<close>

definition isspace :: "pychar \<Rightarrow> bool" where
  "isspace c \<longleftrightarrow>
     (9 \<le> c \<and> c \<le> 13) \<or> (28 \<le> c \<and> c \<le> 32) \<or> c = 133 \<or> c = 160 \<or> c = 5760 \<or>
     (8192 \<le> c \<and> c \<le> 8202) \<or> c = 8232 \<or> c = 8233 \<or> c = 8239 \<or> c = 8287 \<or> c = 12288"

text \<open>\<^verbatim>\<open>s.strip()\<close>: whitespace removed at both ends.\<close>

definition lstrip :: "pystr \<Rightarrow> pystr" where
  "lstrip s = dropWhile isspace s"

definition rstrip :: "pystr \<Rightarrow> pystr" where
  "rstrip s = rev (dropWhile isspace (rev s))"

definition strip :: "pystr \<Rightarrow> pystr" where
  "strip s = lstrip (rstrip s)"

text \<open>\<^verbatim>\<open>text.split('\n')\<close> and \<^verbatim>\<open>'\n'.join(lines)\<close>.\<close>

fun split_nl :: "pystr \<Rightarrow> pystr list" where
  "split_nl [] = [[]]"
| "split_nl (c # cs) =
     (if c = NL then [] # split_nl cs
      else (case split_nl cs of [] \<Rightarrow> [[c]] | l # ls \<Rightarrow> (c # l) # ls))"

fun join_nl :: "pystr list \<Rightarrow> pystr" where
  "join_nl [] = []"
| "join_nl [l] = l"
| "join_nl (l # ls) = l @ NL # join_nl ls"

text \<open>
  \<^verbatim>\<open>s.replace(old, new)\<close> for a non-empty \<open>old\<close>: occurrences are replaced from the
  left, without overlap.
\<close>

function py_replace :: "pystr \<Rightarrow> pystr \<Rightarrow> pystr \<Rightarrow> pystr" where
  "py_replace old new s =
     (if s = [] then []
      else if old \<noteq> [] \<and> take (length old) s = old
        then new @ py_replace old new (drop (length old) s)
      else hd s # py_replace old new (tl s))"
  by pat_completeness auto
termination
  by (relation "measure (\<lambda>(old, new, s). length s)") (auto simp: neq_Nil_conv)

declare py_replace.simps [simp del]

section \<open>The regular expressions of the \<^verbatim>\<open>re\<close> module\<close>

text \<open>
  A pattern is kept as its syntax tree, so that each pattern of the source can be read
  off the model.  Only the constructs the program's patterns use are present.
\<close>

datatype regex =
    Eps
  | Lit pychar                \<comment> \<open>an ordinary or escaped character\<close>
  | Dot                       \<comment> \<open>\<^verbatim>\<open>.\<close>\<close>
  | OneOf "pychar list"       \<comment> \<open>\<^verbatim>\<open>[...]\<close>\<close>
  | NoneOf "pychar list"      \<comment> \<open>\<^verbatim>\<open>[^...]\<close>\<close>
  | Space                     \<comment> \<open>\<^verbatim>\<open>\s\<close>\<close>
  | Eos                       \<comment> \<open>\<^verbatim>\<open>$\<close> (no MULTILINE)\<close>
  | Seq regex regex
  | Alt regex regex           \<comment> \<open>\<^verbatim>\<open>a|b\<close>\<close>
  | Star regex                \<comment> \<open>\<^verbatim>\<open>a*\<close>\<close>
  | Plus regex                \<comment> \<open>\<^verbatim>\<open>a+\<close>\<close>
  | PlusLazy regex            \<comment> \<open>\<^verbatim>\<open>a+?\<close>\<close>
  | Group nat regex           \<comment> \<open>\<^verbatim>\<open>(a)\<close>, numbered\<close>
  | NotAhead regex            \<comment> \<open>\<^verbatim>\<open>(?!a)\<close>\<close>
  | NotBehind regex           \<comment> \<open>\<^verbatim>\<open>(?<!a)\<close>\<close>

datatype flag = DOTALL | IGNORECASE

fun seqs :: "regex list \<Rightarrow> regex" where
  "seqs [] = Eps"
| "seqs [r] = r"
| "seqs (r # rs) = Seq r (seqs rs)"

definition lits :: "string \<Rightarrow> regex list" where
  "lits cs = map Lit (py cs)"

text \<open>
  The characters a pattern letter matches besides itself under \<^verbatim>\<open>re.IGNORECASE\<close> in a
  \<^verbatim>\<open>str\<close> pattern: the other case, and for \<^verbatim>\<open>i\<close>, \<^verbatim>\<open>s\<close> and \<^verbatim>\<open>k\<close> the
  letters U+0130, U+0131, U+017F and U+212A.  The program's patterns contain ASCII
  characters only.
\<close>

definition case_variants :: "pychar \<Rightarrow> pychar list" where
  "case_variants c =
     (if 97 \<le> c \<and> c \<le> 122 then [c - 32] else if 65 \<le> c \<and> c \<le> 90 then [c + 32] else []) @
     (if c = 105 \<or> c = 73 then [304, 305]
      else if c = 115 \<or> c = 83 then [383]
      else if c = 107 \<or> c = 75 then [8490] else [])"

definition lit_eq :: "flag list \<Rightarrow> pychar \<Rightarrow> pychar \<Rightarrow> bool" where
  "lit_eq fl c x \<longleftrightarrow> x = c \<or> (IGNORECASE \<in> set fl \<and> x \<in> set (case_variants c))"

text \<open>
  A matcher state is the current offset, the text remaining from that offset on, and
  the spans of the groups closed so far.  \<open>rmatch fl s r st\<close> lists the states in
  which \<open>r\<close> can end when started in \<open>st\<close> on the subject string \<open>s\<close>, in the
  order a backtracking matcher tries them; the head of the list is the match the
  library reports.
\<close>

type_synonym groups = "(nat \<times> nat \<times> nat) list"
type_synonym mstate = "nat \<times> pystr \<times> groups"

abbreviation pos_of :: "mstate \<Rightarrow> nat" where "pos_of st \<equiv> fst st"
abbreviation rest_of :: "mstate \<Rightarrow> pystr" where "rest_of st \<equiv> fst (snd st)"
abbreviation groups_of :: "mstate \<Rightarrow> groups" where "groups_of st \<equiv> snd (snd st)"

text \<open>One character, if it passes the test.\<close>

definition one_char :: "(pychar \<Rightarrow> bool) \<Rightarrow> mstate \<Rightarrow> mstate list" where
  "one_char p st =
     (case rest_of st of
        [] \<Rightarrow> []
      | x # xs \<Rightarrow> if p x then [(Suc (pos_of st), xs, groups_of st)] else [])"

text \<open>
  Repetition on a subject of length \<open>n\<close>.  An iteration that does not advance ends
  the loop; the bodies of all repetitions in the program consume exactly one character.
\<close>

function greedy_loop :: "nat \<Rightarrow> (mstate \<Rightarrow> mstate list) \<Rightarrow> mstate \<Rightarrow> mstate list" where
  "greedy_loop n body st =
     concat (map (\<lambda>st'. if pos_of st < pos_of st' \<and> pos_of st' \<le> n
                         then greedy_loop n body st' else [st'])
               (body st)) @ [st]"
  by pat_completeness auto
termination
  by (relation "measure (\<lambda>(n, body, st). n - pos_of st)") auto

declare greedy_loop.simps [simp del]

function lazy_loop :: "nat \<Rightarrow> (mstate \<Rightarrow> mstate list) \<Rightarrow> mstate \<Rightarrow> mstate list" where
  "lazy_loop n body st =
     concat (map (\<lambda>st'. st' # (if pos_of st < pos_of st' \<and> pos_of st' \<le> n
                               then lazy_loop n body st' else []))
               (body st))"
  by pat_completeness auto
termination
  by (relation "measure (\<lambda>(n, body, st). n - pos_of st)") auto

declare lazy_loop.simps [simp del]

text \<open>
  The states a greedy repetition of a one-character test runs through, longest first
  (used to describe \<open>greedy_loop\<close> in proofs).
\<close>

fun run_states :: "(pychar \<Rightarrow> bool) \<Rightarrow> nat \<Rightarrow> pystr \<Rightarrow> groups \<Rightarrow> mstate list" where
  "run_states P p [] g = [(p, [], g)]"
| "run_states P p (x # xs) g =
     (if P x then run_states P (Suc p) xs g @ [(p, x # xs, g)] else [(p, x # xs, g)])"

text \<open>The width of a look-behind pattern (the library accepts fixed-width ones only).\<close>

fun re_width :: "regex \<Rightarrow> nat" where
  "re_width (Lit c) = 1"
| "re_width Dot = 1"
| "re_width (OneOf cs) = 1"
| "re_width (NoneOf cs) = 1"
| "re_width Space = 1"
| "re_width (Seq a b) = re_width a + re_width b"
| "re_width (Alt a b) = re_width a"
| "re_width (Group k a) = re_width a"
| "re_width r = 0"

primrec rmatch :: "flag list \<Rightarrow> pystr \<Rightarrow> regex \<Rightarrow> mstate \<Rightarrow> mstate list" where
  "rmatch fl s Eps st = [st]"
| "rmatch fl s (Lit c) st = one_char (lit_eq fl c) st"
| "rmatch fl s Dot st = one_char (\<lambda>x. DOTALL \<in> set fl \<or> x \<noteq> NL) st"
| "rmatch fl s (OneOf cs) st = one_char (\<lambda>x. \<exists>c \<in> set cs. lit_eq fl c x) st"
| "rmatch fl s (NoneOf cs) st = one_char (\<lambda>x. \<not> (\<exists>c \<in> set cs. lit_eq fl c x)) st"
| "rmatch fl s Space st = one_char isspace st"
| "rmatch fl s Eos st = (if rest_of st = [] \<or> rest_of st = [NL] then [st] else [])"
| "rmatch fl s (Seq a b) st = concat (map (rmatch fl s b) (rmatch fl s a st))"
| "rmatch fl s (Alt a b) st = rmatch fl s a st @ rmatch fl s b st"
| "rmatch fl s (Star a) st = greedy_loop (length s) (rmatch fl s a) st"
| "rmatch fl s (Plus a) st =
     concat (map (greedy_loop (length s) (rmatch fl s a)) (rmatch fl s a st))"
| "rmatch fl s (PlusLazy a) st = lazy_loop (length s) (rmatch fl s a) st"
| "rmatch fl s (Group k a) st =
     map (\<lambda>st'. (pos_of st', rest_of st', (k, pos_of st, pos_of st') # groups_of st'))
       (rmatch fl s a st)"
| "rmatch fl s (NotAhead a) st = (if rmatch fl s a st = [] then [st] else [])"
| "rmatch fl s (NotBehind a) st =
     (if re_width a \<le> pos_of st \<and>
         (\<exists>st' \<in> set (rmatch fl s a (pos_of st - re_width a,
                                      drop (pos_of st - re_width a) s, groups_of st)).
             pos_of st' = pos_of st)
      then [] else [st])"

declare rmatch.simps [simp del]

text \<open>
  \<^verbatim>\<open>pattern.search\<close> from a given state on: the leftmost offset at which the pattern
  matches, with the first match found there.
\<close>

fun search :: "flag list \<Rightarrow> regex \<Rightarrow> pystr \<Rightarrow> nat \<Rightarrow> pystr \<Rightarrow> (nat \<times> pystr \<times> mstate) option" where
  "search fl r s pos rest =
     (case rmatch fl s r (pos, rest, []) of
        st # _ \<Rightarrow> Some (pos, rest, st)
      | [] \<Rightarrow> (case rest of [] \<Rightarrow> None | x # xs \<Rightarrow> search fl r s (Suc pos) xs))"

declare search.simps [simp del]

lemma search_suffix:
  "search fl r s pos rest = Some (b, rb, st) \<Longrightarrow> length rb \<le> length rest"
proof (induction rest arbitrary: pos)
  case Nil
  then show ?case
    by (auto simp: search.simps [of fl r s pos "[]"] split: list.splits)
next
  case (Cons x xs)
  show ?case
  proof (cases "rmatch fl s r (pos, x # xs, [])")
    case Nil
    with Cons.prems have "search fl r s (Suc pos) xs = Some (b, rb, st)"
      by (simp add: search.simps [of fl r s pos "x # xs"])
    from Cons.IH [OF this] show ?thesis by simp
  next
    case (Cons a as)
    with Cons.prems show ?thesis
      by (simp add: search.simps [of fl r s pos "x # xs"])
  qed
qed

text \<open>
  \<^verbatim>\<open>re.finditer\<close>: the successive non-overlapping matches, each as start, end and
  groups.  After a match the scan resumes at its end.  (No pattern of the program
  matches the empty string; after an empty match the model moves on by one character.)
\<close>

function finditer_from :: "flag list \<Rightarrow> regex \<Rightarrow> pystr \<Rightarrow> nat \<Rightarrow> pystr \<Rightarrow> (nat \<times> nat \<times> groups) list" where
  "finditer_from fl r s pos rest =
     (case search fl r s pos rest of
        None \<Rightarrow> []
      | Some (b, rb, e, re, g) \<Rightarrow>
          (b, e, g) #
          (if length re < length rb then finditer_from fl r s e re
           else (case rb of [] \<Rightarrow> [] | x # xs \<Rightarrow> finditer_from fl r s (Suc b) xs)))"
  by pat_completeness auto
termination
proof (relation "measure (\<lambda>(fl, r, s, pos, rest). length rest)", goal_cases)
  case 1
  show ?case by simp
next
  case (2 fl r s pos rest x2 b y rb z e w re g)
  then have "search fl r s pos rest = Some (b, rb, (e, re, g))" by simp
  from search_suffix [OF this] 2 show ?case by simp
next
  case (3 fl r s pos rest x2 b y rb z e w re g x xs)
  then have "search fl r s pos rest = Some (b, rb, (e, re, g))" by simp
  from search_suffix [OF this] 3 show ?case by simp
qed

declare finditer_from.simps [simp del]

definition finditer :: "flag list \<Rightarrow> regex \<Rightarrow> pystr \<Rightarrow> (nat \<times> nat \<times> groups) list" where
  "finditer fl r s = finditer_from fl r s 0 s"

text \<open>\<^verbatim>\<open>match.group(k)\<close>.\<close>

definition group_text :: "pystr \<Rightarrow> groups \<Rightarrow> nat \<Rightarrow> pystr" where
  "group_text s g k =
     (case map_of g k of None \<Rightarrow> [] | Some (b, e) \<Rightarrow> take (e - b) (drop b s))"

text \<open>
  \<^verbatim>\<open>re.sub(pattern, repl, s)\<close>: the text between the matches is kept and every match
  is replaced by the template, a list of literal pieces and group references.
\<close>

datatype tpl = TLit pystr | TGroup nat

fun expand :: "pystr \<Rightarrow> groups \<Rightarrow> tpl list \<Rightarrow> pystr" where
  "expand s g [] = []"
| "expand s g (TLit l # ts) = l @ expand s g ts"
| "expand s g (TGroup k # ts) = group_text s g k @ expand s g ts"

fun sub_build :: "pystr \<Rightarrow> tpl list \<Rightarrow> nat \<Rightarrow> (nat \<times> nat \<times> groups) list \<Rightarrow> pystr" where
  "sub_build s repl pos [] = drop pos s"
| "sub_build s repl pos ((b, e, g) # ms) =
     take (b - pos) (drop pos s) @ expand s g repl @ sub_build s repl e ms"

definition re_sub :: "flag list \<Rightarrow> regex \<Rightarrow> tpl list \<Rightarrow> pystr \<Rightarrow> pystr" where
  "re_sub fl r repl s = sub_build s repl 0 (finditer fl r s)"

section \<open>The program: \<^verbatim>\<open>render_text_with_latex\<close>\<close>

subsection \<open>Repair of doubled backslashes, line by line\<close>

text \<open>\<^verbatim>\<open>re.sub(r'\\(\\+)([\[\(])', r'\1\2', line)\<close>\<close>

definition re_fix_escape :: regex where
  "re_fix_escape =
     seqs [Lit BS, Group 1 (Plus (Lit BS)), Group 2 (OneOf [LBRACKET, LPAREN])]"

definition processed_line :: "pystr \<Rightarrow> pystr" where
  "processed_line line = re_sub [] re_fix_escape [TGroup 1, TGroup 2] line"

definition processed_text :: "pystr \<Rightarrow> pystr" where
  "processed_text text = join_nl (map processed_line (split_nl text))"

subsection \<open>Collecting the formula spans\<close>

datatype mtype = Block | Inline

type_synonym span = "nat \<times> nat \<times> mtype \<times> pystr"

text \<open>\<^verbatim>\<open>r'\$\$((?:(?!\$\$).|\n)+?)\$\$'\<close> with \<^verbatim>\<open>re.DOTALL\<close>\<close>

definition re_block_dollar :: regex where
  "re_block_dollar =
     seqs [Lit DOLLAR, Lit DOLLAR,
           Group 1 (PlusLazy (Alt (Seq (NotAhead (Seq (Lit DOLLAR) (Lit DOLLAR))) Dot) (Lit NL))),
           Lit DOLLAR, Lit DOLLAR]"

text \<open>\<^verbatim>\<open>r'\\\[((?:(?!\\\]).|\n)+?)\\\]'\<close> with \<^verbatim>\<open>re.DOTALL\<close>\<close>

definition re_block_bracket :: regex where
  "re_block_bracket =
     seqs [Lit BS, Lit LBRACKET,
           Group 1 (PlusLazy (Alt (Seq (NotAhead (Seq (Lit BS) (Lit RBRACKET))) Dot) (Lit NL))),
           Lit BS, Lit RBRACKET]"

text \<open>\<^verbatim>\<open>r'(?<!\$)\$(?![$])((?:(?!\$[^$]|$$).)+?)\$(?!\$)'\<close>\<close>

definition re_inline_dollar :: regex where
  "re_inline_dollar =
     seqs [NotBehind (Lit DOLLAR), Lit DOLLAR, NotAhead (OneOf [DOLLAR]),
           Group 1 (PlusLazy
             (Seq (NotAhead (Alt (Seq (Lit DOLLAR) (NoneOf [DOLLAR])) (Seq Eos Eos))) Dot)),
           Lit DOLLAR, NotAhead (Lit DOLLAR)]"

text \<open>\<^verbatim>\<open>r'\\\(((?:(?!\\\)).)+?)\\\)'\<close>\<close>

definition re_inline_paren :: regex where
  "re_inline_paren =
     seqs [Lit BS, Lit LPAREN,
           Group 1 (PlusLazy (Seq (NotAhead (Seq (Lit BS) (Lit RPAREN))) Dot)),
           Lit BS, Lit RPAREN]"

text \<open>
  \<^verbatim>\<open>any(m_start <= start < m_end for m_start, m_end, _, _ in all_matches)\<close>
\<close>

definition is_inside :: "nat \<Rightarrow> span list \<Rightarrow> bool" where
  "is_inside start ms \<longleftrightarrow> (\<exists>m \<in> set ms. fst m \<le> start \<and> start < fst (snd m))"

text \<open>
  The bodies of the four \<^verbatim>\<open>for match in re.finditer(...)\<close> loops; each takes one
  match and the list \<^verbatim>\<open>all_matches\<close> built so far.
\<close>

definition step_block_dollar :: "pystr \<Rightarrow> nat \<times> nat \<times> groups \<Rightarrow> span list \<Rightarrow> span list" where
  "step_block_dollar text m all =
     (let formula = strip (group_text text (snd (snd m)) 1)
      in if formula \<noteq> [] then all @ [(fst m, fst (snd m), Block, formula)] else all)"

definition step_block_bracket :: "pystr \<Rightarrow> nat \<times> nat \<times> groups \<Rightarrow> span list \<Rightarrow> span list" where
  "step_block_bracket text m all =
     (if \<not> is_inside (fst m) all then
        (let formula = strip (group_text text (snd (snd m)) 1)
         in if formula \<noteq> [] then all @ [(fst m, fst (snd m), Block, formula)] else all)
      else all)"

definition step_inline_dollar :: "pystr \<Rightarrow> nat \<times> nat \<times> groups \<Rightarrow> span list \<Rightarrow> span list" where
  "step_inline_dollar text m all =
     (if \<not> is_inside (fst m) all then
        (let formula = strip (group_text text (snd (snd m)) 1)
         in if formula \<noteq> [] \<and> DOLLAR \<notin> set formula
            then all @ [(fst m, fst (snd m), Inline, formula)] else all)
      else all)"

definition step_inline_paren :: "pystr \<Rightarrow> nat \<times> nat \<times> groups \<Rightarrow> span list \<Rightarrow> span list" where
  "step_inline_paren text m all =
     (if \<not> is_inside (fst m) all then
        (let formula = strip (group_text text (snd (snd m)) 1)
         in if formula \<noteq> [] then all @ [(fst m, fst (snd m), Inline, formula)] else all)
      else all)"

definition all_matches :: "pystr \<Rightarrow> span list" where
  "all_matches text =
     fold (step_inline_paren text) (finditer [] re_inline_paren text)
       (fold (step_inline_dollar text) (finditer [] re_inline_dollar text)
          (fold (step_block_bracket text) (finditer [DOTALL] re_block_bracket text)
             (fold (step_block_dollar text) (finditer [DOTALL] re_block_dollar text) [])))"

subsection \<open>Sorting and removal of overlapping spans\<close>

text \<open>\<^verbatim>\<open>all_matches.sort(key=lambda x: x[0])\<close>; the sort of lists is stable.\<close>

definition sorted_matches :: "pystr \<Rightarrow> span list" where
  "sorted_matches text = sort_key fst (all_matches text)"

definition overlaps :: "span \<Rightarrow> span list \<Rightarrow> bool" where
  "overlaps m acc \<longleftrightarrow>
     (\<exists>ex \<in> set acc. fst ex < fst (snd m) \<and> fst m < fst (snd ex))"

definition filter_step :: "span \<Rightarrow> span list \<Rightarrow> span list" where
  "filter_step m acc = (if \<not> overlaps m acc then acc @ [m] else acc)"

definition filter_overlaps :: "span list \<Rightarrow> span list" where
  "filter_overlaps ms = fold filter_step ms []"

definition filtered_matches :: "pystr \<Rightarrow> span list" where
  "filtered_matches text = filter_overlaps (sorted_matches text)"

subsection \<open>The two helper functions\<close>

text \<open>\<^verbatim>\<open>has_real_content\<close>: \<^verbatim>\<open>re.sub(r'\s+', '', s)\<close> is not empty.\<close>

definition has_real_content :: "pystr \<Rightarrow> bool" where
  "has_real_content s =
     (if s = [] then False
      else (let cleaned = re_sub [] (Plus Space) [] s in 0 < length cleaned))"

text \<open>The nine patterns of \<^verbatim>\<open>clean_html_content\<close>, all with \<^verbatim>\<open>re.IGNORECASE\<close>.\<close>

definition re_empty_div :: regex where
  "re_empty_div =
     seqs (lits ''<div'' @ [Star (NoneOf [GT]), Lit GT, Star Space] @ lits ''</div>'')"

definition re_empty_div_div :: regex where
  "re_empty_div_div =
     seqs (lits ''<div'' @ [Star (NoneOf [GT]), Lit GT, Star Space] @
           lits ''<div'' @ [Star (NoneOf [GT]), Lit GT, Star Space] @
           lits ''</div>'' @ [Star Space] @ lits ''</div>'')"

definition re_hr :: regex where
  "re_hr = seqs (lits ''<hr'' @ [Star (NoneOf [GT]), Lit GT, Star Space])"

definition re_hr_closed :: regex where
  "re_hr_closed = seqs (lits ''<hr'' @ [Star (NoneOf [GT])] @ lits ''/>'')"

definition re_img :: regex where
  "re_img = seqs (lits ''<img'' @ [Star (NoneOf [GT]), Lit GT, Star Space])"

definition re_img_closed :: regex where
  "re_img_closed = seqs (lits ''<img'' @ [Star (NoneOf [GT])] @ lits ''/>'')"

definition re_empty_span :: regex where
  "re_empty_span =
     seqs (lits ''<span'' @ [Star (NoneOf [GT]), Lit GT, Star Space] @ lits ''</span>'')"

definition re_empty_p :: regex where
  "re_empty_p =
     seqs (lits ''<p'' @ [Star (NoneOf [GT]), Lit GT, Star Space] @ lits ''</p>'')"

definition re_br :: regex where
  "re_br = seqs (lits ''<br'' @ [Star (NoneOf [GT]), Lit GT, Star Space])"

definition html_patterns :: "regex list" where
  "html_patterns =
     [re_empty_div, re_empty_div_div, re_hr, re_hr_closed, re_img, re_img_closed,
      re_empty_span, re_empty_p, re_br]"

definition clean_html_content :: "pystr \<Rightarrow> pystr" where
  "clean_html_content content =
     (if content = [] then content
      else fold (\<lambda>r content. re_sub [IGNORECASE] r [] content) html_patterns content)"

subsection \<open>The rendering surface\<close>

text \<open>
  The program's only effects are its calls of \<^verbatim>\<open>st.markdown\<close> and \<^verbatim>\<open>st.latex\<close>.
  A call returns, or raises an exception that is an instance of \<^verbatim>\<open>Exception\<close>, or raises
  one that is not (\<^verbatim>\<open>KeyboardInterrupt\<close>, \<^verbatim>\<open>SystemExit\<close> and the other classes
  derived from \<^verbatim>\<open>BaseException\<close> only): the handler \<^verbatim>\<open>except Exception\<close> catches the
  former only, the bare \<^verbatim>\<open>except:\<close> catches both.
\<close>

datatype outcome = Returns | Raises_Exception | Raises_Other

text \<open>
  A run is described by the list of calls it makes and by how it ends: \<open>Returns\<close>, or
  the kind of the exception that leaves it.  The surface is a parameter: it tells, from
  the calls made so far, how the next call ends.
\<close>

datatype call = Markdown pystr | Latex pystr

type_synonym surface = "call list \<Rightarrow> call \<Rightarrow> outcome"

fun payload :: "call \<Rightarrow> pystr" where
  "payload (Markdown s) = s"
| "payload (Latex s) = s"

definition invoke :: "surface \<Rightarrow> call list \<Rightarrow> call \<Rightarrow> call list \<times> outcome" where
  "invoke surf tr c = (tr @ [c], surf tr c)"

subsection \<open>Text, inline formulas and block formulas in source order\<close>

datatype part_type = Text | Inline_latex | Block_latex

type_synonym part = "part_type \<times> pystr"

text \<open>\<^verbatim>\<open>s[i:j]\<close>\<close>

definition slice :: "pystr \<Rightarrow> nat \<Rightarrow> nat \<Rightarrow> pystr" where
  "slice s i j = take (j - i) (drop i s)"

text \<open>
  The loop over the accepted spans; its state is \<^verbatim>\<open>last_end\<close> and
  \<^verbatim>\<open>result_parts\<close>.
\<close>

definition parts_step :: "pystr \<Rightarrow> span \<Rightarrow> nat \<times> part list \<Rightarrow> nat \<times> part list" where
  "parts_step txt m st =
     (case m of (start, end_, formula_type, formula_content) \<Rightarrow>
      (case st of (last_end, parts) \<Rightarrow>
        (let parts1 =
               (if last_end < start then
                  (let text_before = slice txt last_end start
                   in if has_real_content text_before then parts @ [(Text, text_before)]
                      else parts)
                else parts);
             parts2 =
               (if formula_type = Block then
                  (if has_real_content formula_content
                   then parts1 @ [(Block_latex, formula_content)] else parts1)
                else
                  (if has_real_content formula_content
                   then parts1 @ [(Inline_latex, formula_content)] else parts1))
         in (end_, parts2))))"

definition result_parts :: "pystr \<Rightarrow> span list \<Rightarrow> part list" where
  "result_parts txt ms =
     (case fold (parts_step txt) ms (0, []) of (last_end, parts) \<Rightarrow>
        (if last_end < length txt then
           (let remaining_text = drop last_end txt
            in if has_real_content remaining_text then parts @ [(Text, remaining_text)]
               else parts)
         else parts))"

subsection \<open>First merge: text and inline formulas into one buffer\<close>

definition text_blocks_step :: "part \<Rightarrow> pystr \<times> part list \<Rightarrow> pystr \<times> part list" where
  "text_blocks_step p st =
     (case p of (part_type, content) \<Rightarrow>
      (case st of (current_text_block, blocks) \<Rightarrow>
        (if part_type = Text then
           (if has_real_content content then (current_text_block @ content, blocks)
            else (current_text_block, blocks))
         else if part_type = Inline_latex then
           (if has_real_content content
            then (current_text_block @ [DOLLAR] @ content @ [DOLLAR], blocks)
            else (current_text_block, blocks))
         else
           (let st1 = (if has_real_content current_text_block
                       then ([], blocks @ [(Text, current_text_block)])
                       else (current_text_block, blocks))
            in if has_real_content content
               then (fst st1, snd st1 @ [(Block_latex, content)]) else st1))))"

definition text_blocks :: "part list \<Rightarrow> part list" where
  "text_blocks parts =
     (case fold text_blocks_step parts ([], []) of (current_text_block, blocks) \<Rightarrow>
        (if has_real_content current_text_block
         then blocks @ [(Text, current_text_block)] else blocks))"

subsection \<open>Second merge: consecutive text blocks\<close>

definition merged_blocks_step :: "part \<Rightarrow> pystr \<times> part list \<Rightarrow> pystr \<times> part list" where
  "merged_blocks_step b st =
     (case b of (block_type, block_content) \<Rightarrow>
      (case st of (current_merged_text, merged) \<Rightarrow>
        (if block_type = Text then
           (if has_real_content block_content then
              (if current_merged_text \<noteq> []
               then (current_merged_text @ [NL, NL] @ block_content, merged)
               else (block_content, merged))
            else (current_merged_text, merged))
         else
           (let st1 = (if has_real_content current_merged_text
                       then ([], merged @ [(Text, current_merged_text)])
                       else (current_merged_text, merged))
            in if has_real_content block_content
               then (fst st1, snd st1 @ [(Block_latex, block_content)]) else st1))))"

definition merged_blocks :: "part list \<Rightarrow> part list" where
  "merged_blocks blocks =
     (case fold merged_blocks_step blocks ([], []) of (current_merged_text, merged) \<Rightarrow>
        (if has_real_content current_merged_text
         then merged @ [(Text, current_merged_text)] else merged))"

subsection \<open>Rendering\<close>

text \<open>
  \<^verbatim>\<open>block_content.replace('\\\\', '\\').strip()\<close>: in the source both arguments are
  ordinary string literals, that is two backslashes and one.
\<close>

definition cleaned_formula :: "pystr \<Rightarrow> pystr" where
  "cleaned_formula block_content = strip (py_replace [BS, BS] [BS] block_content)"

text \<open>
  One iteration of the last loop, from the calls made so far.  The result is the
  calls made and how the iteration ends.  The first \<^verbatim>\<open>st.latex\<close> stands in
  \<^verbatim>\<open>try: ... except Exception\<close>, the second in \<^verbatim>\<open>try: ... except:\<close>, and the calls of
  \<^verbatim>\<open>st.markdown\<close> in no handler.
\<close>

definition render_block :: "surface \<Rightarrow> call list \<Rightarrow> part \<Rightarrow> call list \<times> outcome" where
  "render_block surf tr b =
     (case b of (block_type, block_content) \<Rightarrow>
        (if block_type = Text then
           (if has_real_content block_content then
              (let cleaned_content = clean_html_content (strip block_content)
               in if cleaned_content \<noteq> [] \<and> has_real_content cleaned_content
                  then invoke surf tr (Markdown cleaned_content)
                  else (tr, Returns))
            else (tr, Returns))
         else
           (if has_real_content block_content then
              (case invoke surf tr (Latex block_content) of
                 (tr1, Returns) \<Rightarrow> (tr1, Returns)
               | (tr1, Raises_Other) \<Rightarrow> (tr1, Raises_Other)
               | (tr1, Raises_Exception) \<Rightarrow>
                   (if has_real_content (cleaned_formula block_content) then
                      (case invoke surf tr1 (Latex (cleaned_formula block_content)) of
                         (tr2, Returns) \<Rightarrow> (tr2, Returns)
                       | (tr2, Raises_Exception) \<Rightarrow>
                           invoke surf tr2
                             (Markdown ([BACKTICK] @ cleaned_formula block_content @ [BACKTICK]))
                       | (tr2, Raises_Other) \<Rightarrow>
                           invoke surf tr2
                             (Markdown ([BACKTICK] @ cleaned_formula block_content @ [BACKTICK])))
                    else (tr1, Returns)))
            else (tr, Returns))))"

text \<open>The last loop: an exception that leaves an iteration leaves the loop.\<close>

fun render_blocks :: "surface \<Rightarrow> call list \<Rightarrow> part list \<Rightarrow> call list \<times> outcome" where
  "render_blocks surf tr [] = (tr, Returns)"
| "render_blocks surf tr (b # bs) =
     (case render_block surf tr b of
        (tr1, Returns) \<Rightarrow> render_blocks surf tr1 bs
      | (tr1, Raises_Exception) \<Rightarrow> (tr1, Raises_Exception)
      | (tr1, Raises_Other) \<Rightarrow> (tr1, Raises_Other))"

text \<open>The branch taken when no span was accepted.\<close>

definition render_plain :: "surface \<Rightarrow> pystr \<Rightarrow> call list \<times> outcome" where
  "render_plain surf txt =
     (if has_real_content txt then
        (let cleaned_text = clean_html_content (strip txt)
         in if cleaned_text \<noteq> [] \<and> has_real_content cleaned_text
            then invoke surf [] (Markdown cleaned_text)
            else ([], Returns))
      else ([], Returns))"

definition render_text_with_latex :: "surface \<Rightarrow> pystr \<Rightarrow> call list \<times> outcome" where
  "render_text_with_latex surf text0 =
     (if text0 = [] then ([], Returns)
      else
        (let txt = processed_text text0;
             ms = filtered_matches txt
         in if ms = [] then render_plain surf txt
            else render_blocks surf []
                   (merged_blocks (text_blocks (result_parts txt ms)))))"

text \<open>A surface on which no call raises.\<close>

definition accepting :: surface where
  "accepting tr c = Returns"

section \<open>Predicates used in the proofs\<close>

text \<open>The negation of the overlap test of the source, on two spans.\<close>

definition apart :: "span \<Rightarrow> span \<Rightarrow> bool" where
  "apart a b \<longleftrightarrow> \<not> (fst a < fst (snd b) \<and> fst b < fst (snd a))"

text \<open>Every part carries content.\<close>

definition good_parts :: "part list \<Rightarrow> bool" where
  "good_parts ps \<longleftrightarrow> (\<forall>p \<in> set ps. has_real_content (snd p))"

text \<open>
  A list of blocks as the first merge builds it: text and block formulas only, all with
  content, and a text is never followed by a text.
\<close>

definition blocks_ok :: "part list \<Rightarrow> bool" where
  "blocks_ok bs \<longleftrightarrow>
     (\<forall>b \<in> set bs. fst b \<noteq> Inline_latex \<and> has_real_content (snd b)) \<and>
     successively (\<lambda>a b. fst a = Text \<longrightarrow> fst b = Block_latex) bs"

definition ends_block :: "part list \<Rightarrow> bool" where
  "ends_block bs \<longleftrightarrow> bs = [] \<or> fst (last bs) = Block_latex"

text \<open>
  The repair of doubled backslashes as the specification words it: a run of two or
  more backslashes directly followed by \<^verbatim>\<open>[\<close> or \<^verbatim>\<open>(\<close> loses one backslash, and
  nothing else changes.  Written from the specification, for comparison with
  \<open>processed_line\<close>.
\<close>

function spec_reduce_runs :: "pystr \<Rightarrow> pystr" where
  "spec_reduce_runs [] = []"
| "spec_reduce_runs (c # cs) =
     (if c = BS then
        (let run = takeWhile (\<lambda>x. x = BS) (c # cs);
             rest = dropWhile (\<lambda>x. x = BS) (c # cs)
         in (if 2 \<le> length run \<and> (case rest of [] \<Rightarrow> False | d # _ \<Rightarrow> d = LBRACKET \<or> d = LPAREN)
             then tl run else run) @ spec_reduce_runs rest)
      else c # spec_reduce_runs cs)"
  by pat_completeness auto
termination
  by (relation "measure length") (auto simp: length_dropWhile_le le_imp_less_Suc)

declare spec_reduce_runs.simps(2) [simp del]

definition opens :: "pystr \<Rightarrow> bool" where
  "opens r \<longleftrightarrow> (case r of [] \<Rightarrow> False | d # _ \<Rightarrow> d = LBRACKET \<or> d = LPAREN)"

abbreviation isBS :: "pychar \<Rightarrow> bool" where "isBS \<equiv> (\<lambda>x. x = BS)"

text \<open>The texts at whose start the repair pattern matches.\<close>

definition reducible :: "pystr \<Rightarrow> bool" where
  "reducible r \<longleftrightarrow>
     (case r of
        [] \<Rightarrow> False
      | x # r1 \<Rightarrow> x = BS \<and> (case r1 of [] \<Rightarrow> False | y # r2 \<Rightarrow> y = BS \<and> opens (dropWhile isBS r2)))"

text \<open>
  A surface whose math primitive always raises an \<^verbatim>\<open>Exception\<close> and whose markup
  primitive never raises.
\<close>

definition latex_rejecting :: surface where
  "latex_rejecting tr c = (case c of Latex f \<Rightarrow> Raises_Exception | Markdown m \<Rightarrow> Returns)"

text \<open>
  A surface whose math primitive is interrupted by an exception that is not an
  \<^verbatim>\<open>Exception\<close>, and one on which every call raises an \<^verbatim>\<open>Exception\<close>.
\<close>

definition latex_interrupted :: surface where
  "latex_interrupted tr c = (case c of Latex f \<Rightarrow> Raises_Other | Markdown m \<Rightarrow> Returns)"

definition all_rejecting :: surface where
  "all_rejecting tr c = Raises_Exception"



text \<open>The inputs of the examples.\<close>

definition example_formula :: pystr where
  "example_formula =
     [BS] @ py ''int_0^1 x'' @ [BS] @ py '',dx = '' @ [BS] @ py ''frac{1}{2}''"

definition example_mixed :: pystr where
  "example_mixed =
     py ''Solve $x+1=2$ then'' @ [NL, NL] @ py ''$$'' @ example_formula @ py ''$$'' @
     [NL, NL] @ py ''Done.''"


definition example_blank_block :: pystr where
  "example_blank_block = py ''$$   $$''"

definition example_nested :: pystr where
  "example_nested = [BS] @ py ''( $x$ '' @ [BS] @ py '')''"

definition example_doubled :: pystr where
  "example_doubled = [BS, BS] @ py ''[ a=b '' @ [BS, BS] @ py '']''"

definition example_doubled_repaired :: pystr where
  "example_doubled_repaired = [BS] @ py ''[ a=b '' @ [BS, BS] @ py '']''"

definition example_linebreak :: pystr where
  "example_linebreak = py ''$$a'' @ [BS, BS] @ py ''b$$''"

text \<open>
  The texts on which the second run is compared with the first.  A character of such a
  text is not a dollar sign and not \<^verbatim>\<open><\<close>, and a backslash in it starts a command:
  it is followed by a character that is not a backslash, not a bracket, not a
  parenthesis and not whitespace.
\<close>

definition after_bs_ok :: "pystr \<Rightarrow> bool" where
  "after_bs_ok r \<longleftrightarrow>
     (case r of [] \<Rightarrow> False
      | y # _ \<Rightarrow> y \<noteq> BS \<and> y \<noteq> LBRACKET \<and> y \<noteq> RBRACKET \<and> y \<noteq> LPAREN \<and> y \<noteq> RPAREN \<and>
                 \<not> isspace y)"

definition safe_at :: "pychar \<Rightarrow> pystr \<Rightarrow> bool" where
  "safe_at x r \<longleftrightarrow> x \<noteq> DOLLAR \<and> x \<noteq> LT \<and> (x = BS \<longrightarrow> after_bs_ok r)"

fun safe :: "pystr \<Rightarrow> bool" where
  "safe [] = True"
| "safe (x # r) = (safe_at x r \<and> safe r)"








definition safe_blocks :: "(pystr \<times> pystr) list \<Rightarrow> bool" where
  "safe_blocks d \<longleftrightarrow> (\<forall>(w, f) \<in> set d. safe w \<and> safe f \<and> has_real_content f)"





section \<open>Evaluation on concrete inputs\<close>

text \<open>The equations by which the simplifier runs the matcher and the scanners.\<close>

lemmas re_eval =
  rmatch.simps finditer_def finditer_from.simps search.simps one_char_def lit_eq_def lazy_loop.simps
  greedy_loop.simps group_text_def isspace_def py_def lits_def case_variants_def

lemmas scan_eval =
  all_matches_def re_block_dollar_def re_block_bracket_def re_inline_dollar_def
  re_inline_paren_def step_block_dollar_def step_block_bracket_def step_inline_dollar_def
  step_inline_paren_def is_inside_def strip_def lstrip_def rstrip_def

lemmas resolve_eval =
  filtered_matches_def sorted_matches_def filter_overlaps_def filter_step_def overlaps_def

section \<open>Facts about the matcher\<close>

lemma rmatch_Space_eq: "rmatch fl s Space = one_char isspace"
  by (rule ext) (simp add: rmatch.simps)

lemma rmatch_Lit_eq: "rmatch fl s (Lit c) = one_char (lit_eq fl c)"
  by (rule ext) (simp add: rmatch.simps)

lemma greedy_one_char:
  "p + length r \<le> n \<Longrightarrow> greedy_loop n (one_char P) (p, r, g) = run_states P p r g"
proof (induction r arbitrary: p)
  case Nil
  show ?case by (simp add: greedy_loop.simps [of n _ "(p, [], g)"] one_char_def)
next
  case (Cons x xs)
  from Cons.prems have "Suc p + length xs \<le> n" by simp
  from Cons.IH [OF this] Cons.prems show ?case
    by (simp add: greedy_loop.simps [of n _ "(p, x # xs, g)"] one_char_def)
qed

lemma run_states_hd:
  "\<exists>tl. run_states P p r g = (p + length (takeWhile P r), dropWhile P r, g) # tl"
proof (induction r arbitrary: p)
  case Nil
  show ?case by simp
next
  case (Cons x xs)
  from Cons.IH [of "Suc p"] show ?case by auto
qed

lemma run_states_concat:
  assumes "\<And>q x xs. P x \<Longrightarrow> F (q, x # xs, g) = []"
  shows "concat (map F (run_states P p r g)) = F (p + length (takeWhile P r), dropWhile P r, g)"
proof (induction r arbitrary: p)
  case Nil
  show ?case by simp
next
  case (Cons x xs)
  from Cons.IH [of "Suc p"] assms show ?case by simp
qed

text \<open>Removal of whitespace by \<^verbatim>\<open>re.sub(r'\s+', '', s)\<close>.\<close>

lemma rmatch_plus_space:
  assumes "p + length r = length s"
  shows "rmatch fl s (Plus Space) (p, r, g) =
     (case r of [] \<Rightarrow> [] | x # xs \<Rightarrow> if isspace x then run_states isspace (Suc p) xs g else [])"
proof (cases r)
  case Nil
  then show ?thesis by (simp add: one_char_def rmatch.simps)
next
  case (Cons x xs)
  with assms have "Suc p + length xs \<le> length s" by simp
  from greedy_one_char [OF this] Cons show ?thesis
    by (simp add: rmatch.simps(11) one_char_def [of _ "(p, x # xs, g)"] rmatch_Space_eq)
qed

lemma search_ws:
  assumes "pos + length rest = length s"
  shows "search fl (Plus Space) s pos rest =
     (case dropWhile (\<lambda>c. \<not> isspace c) rest of
        [] \<Rightarrow> None
      | x # xs \<Rightarrow>
          Some (pos + length (takeWhile (\<lambda>c. \<not> isspace c) rest), x # xs,
                pos + length (takeWhile (\<lambda>c. \<not> isspace c) rest) + length (takeWhile isspace (x # xs)),
                dropWhile isspace (x # xs), []))"
  using assms
proof (induction rest arbitrary: pos)
  case Nil
  have "rmatch fl s (Plus Space) (pos, [], []) = []"
    by (simp add: rmatch_plus_space [OF Nil.prems])
  then show ?case
    by (subst search.simps) simp
next
  case (Cons x xs)
  note rm = rmatch_plus_space [OF Cons.prems, of fl "[]"]
  show ?case
  proof (cases "isspace x")
    case True
    from run_states_hd [of isspace "Suc pos" xs "[]"] obtain tl where
      "run_states isspace (Suc pos) xs [] =
         (Suc pos + length (takeWhile isspace xs), dropWhile isspace xs, []) # tl" by blast
    with True rm have "rmatch fl s (Plus Space) (pos, x # xs, []) =
         (Suc pos + length (takeWhile isspace xs), dropWhile isspace xs, []) # tl"
      by (simp)
    with True show ?thesis
      by (subst search.simps) simp
  next
    case False
    from Cons.prems have "Suc pos + length xs = length s" by simp
    note IH = Cons.IH [OF this]
    from False rm have "rmatch fl s (Plus Space) (pos, x # xs, []) = []"
      by (simp)
    then have "search fl (Plus Space) s pos (x # xs) = search fl (Plus Space) s (Suc pos) xs"
      by (subst search.simps) simp
    then show ?thesis
      using IH False by (cases "dropWhile (\<lambda>c. \<not> isspace c) xs")
          (simp_all del: dropWhile_eq_Nil_conv)
  qed
qed

lemma sub_ws:
  "rest = drop pos s \<Longrightarrow> pos \<le> length s \<Longrightarrow>
   sub_build s [] pos (finditer_from fl (Plus Space) s pos rest) = filter (\<lambda>c. \<not> isspace c) rest"
proof (induction "length rest" arbitrary: pos rest rule: less_induct)
  case less
  let ?N = "\<lambda>c. \<not> isspace c"
  note rest = \<open>rest = drop pos s\<close>
  from less.prems have len: "pos + length rest = length s" by simp
  show ?case
  proof (cases "dropWhile ?N rest")
    case Nil
    then have "\<forall>x \<in> set rest. ?N x" by (simp add: dropWhile_eq_Nil_conv)
    then have f: "filter ?N rest = rest" by simp
    have "search fl (Plus Space) s pos rest = None"
      using search_ws [OF len, of fl] Nil by simp
    then have "finditer_from fl (Plus Space) s pos rest = []"
      by (subst finditer_from.simps) simp
    then have "sub_build s [] pos (finditer_from fl (Plus Space) s pos rest) = drop pos s"
      by simp
    with f rest show ?thesis by simp
  next
    case (Cons x xs)
    define tw1 where "tw1 = takeWhile ?N rest"
    define tw2 where "tw2 = takeWhile isspace (x # xs)"
    define re where "re = dropWhile isspace (x # xs)"
    define b where "b = pos + length tw1"
    define e where "e = b + length tw2"
    have r1: "rest = tw1 @ x # xs"
      unfolding tw1_def using Cons takeWhile_dropWhile_id [of ?N rest] by simp
    have r2: "x # xs = tw2 @ re"
      unfolding tw2_def re_def by (simp only: takeWhile_dropWhile_id)
    have sx: "isspace x"
      using hd_dropWhile [of ?N rest] Cons by simp
    then have "tw2 \<noteq> []" by (simp add: tw2_def)
    moreover from r2 have "length (x # xs) = length tw2 + length re"
      by (metis length_append)
    ultimately have lre: "length re < length (x # xs)"
      by simp
    with r1 have lrest: "length re < length rest" by simp
    have rest_eq: "rest = tw1 @ tw2 @ re" using r1 r2 by simp
    have e_le: "e \<le> length s"
    proof -
      have "length rest = length tw1 + length tw2 + length re"
        using rest_eq by (metis length_append add.assoc)
      with len show ?thesis by (simp add: e_def b_def)
    qed
    have dr: "re = drop e s"
    proof -
      have "drop e s = drop (length tw1 + length tw2) (drop pos s)"
        by (simp add: e_def b_def add.commute add.left_commute)
      also have "drop pos s = tw1 @ tw2 @ re" using rest rest_eq by simp
      also have "drop (length tw1 + length tw2) (tw1 @ tw2 @ re) = re" by simp
      finally show ?thesis by simp
    qed
    have IH: "sub_build s [] e (finditer_from fl (Plus Space) s e re) = filter ?N re"
      by (rule less.hyps [OF lrest dr e_le])
    have "search fl (Plus Space) s pos rest = Some (b, x # xs, e, re, [])"
      using search_ws [OF len, of fl] Cons by (simp add: b_def e_def re_def tw1_def tw2_def)
    then have fit: "finditer_from fl (Plus Space) s pos rest = (b, e, []) # finditer_from fl (Plus Space) s e re"
      using lre by (subst finditer_from.simps) simp
    have "take (b - pos) (drop pos s) = take (length tw1) (tw1 @ tw2 @ re)"
      using rest rest_eq by (simp add: b_def)
    then have tk: "take (b - pos) (drop pos s) = tw1" by simp
    have f2: "filter ?N tw2 = []"
      unfolding tw2_def filter_empty_conv using set_takeWhileD by fastforce
    have f1: "filter ?N tw1 = tw1"
      unfolding tw1_def filter_id_conv using set_takeWhileD by fastforce
    have fl1: "filter ?N rest = tw1 @ filter ?N re"
      by (subst rest_eq) (simp add: f1 f2)
    show ?thesis
      by (simp add: fit tk IH fl1)
  qed
qed

lemma re_sub_ws: "re_sub fl (Plus Space) [] s = filter (\<lambda>c. \<not> isspace c) s"
  using sub_ws [of s 0 s fl] by (simp add: re_sub_def finditer_def)

lemma has_real_content_iff: "has_real_content s \<longleftrightarrow> (\<exists>c \<in> set s. \<not> isspace c)"
  by (auto simp: has_real_content_def re_sub_ws filter_empty_conv)

section \<open>The accepted spans\<close>

lemma sorted_wrt_subseq_local:
  "subseq xs ys \<Longrightarrow> sorted_wrt P ys \<Longrightarrow> sorted_wrt P xs"
proof (induction xs ys rule: list_emb.induct)
  case (list_emb_Nil ys)
  then show ?case by simp
next
  case (list_emb_Cons xs ys y)
  then show ?case by simp
next
  case (list_emb_Cons2 x y xs ys)
  then show ?case by (auto dest: list_emb_set)
qed

lemma fold_filter_step_subseq:
  "\<exists>ys. fold filter_step ms acc = acc @ ys \<and> subseq ys ms"
proof (induction ms arbitrary: acc)
  case Nil
  then show ?case by simp
next
  case (Cons m ms)
  show ?case
  proof (cases "overlaps m acc")
    case True
    from Cons.IH [of acc] obtain ys where "fold filter_step ms acc = acc @ ys" "subseq ys ms"
      by blast
    moreover from True have "filter_step m acc = acc" by (simp add: filter_step_def [of m acc])
    ultimately show ?thesis by auto
  next
    case False
    from Cons.IH [of "acc @ [m]"] obtain ys
      where "fold filter_step ms (acc @ [m]) = (acc @ [m]) @ ys" "subseq ys ms"
      by blast
    moreover from False have "filter_step m acc = acc @ [m]"
      by (simp add: filter_step_def [of m acc])
    ultimately have "fold filter_step (m # ms) acc = acc @ (m # ys) \<and> subseq (m # ys) (m # ms)"
      by simp
    then show ?thesis by blast
  qed
qed

lemma fold_filter_step_apart:
  "sorted_wrt apart acc \<Longrightarrow> sorted_wrt apart (fold filter_step ms acc)"
proof (induction ms arbitrary: acc)
  case Nil
  then show ?case by simp
next
  case (Cons m ms)
  have "\<not> overlaps m acc \<Longrightarrow> \<forall>x \<in> set acc. apart x m"
    by (auto simp: overlaps_def apart_def [of _ m])
  then have "sorted_wrt apart (filter_step m acc)"
    using Cons.prems
    by (auto simp: filter_step_def [of m acc] sorted_wrt_append)
  from Cons.IH [OF this] show ?case by simp
qed

lemma filter_overlaps_subseq: "subseq (filter_overlaps ms) ms"
  using fold_filter_step_subseq [of ms "[]"] by (auto simp: filter_overlaps_def)

lemma filter_overlaps_apart: "sorted_wrt apart (filter_overlaps ms)"
  unfolding filter_overlaps_def by (rule fold_filter_step_apart) simp

lemma apart_disjoint:
  "apart a b \<Longrightarrow> {fst a..<fst (snd a)} \<inter> {fst b..<fst (snd b)} = {}"
  by (auto simp: apart_def [of a b])

text \<open>
  Claim C2.  For every text, the spans that survive the removal of overlaps are
  pairwise disjoint as half-open intervals and ascending by start offset.  They are
  taken, in order, from the list sorted by start, and that sort is stable: spans with
  the same start keep the order in which the four scans collected them.
\<close>

theorem accepted_spans_disjoint_sorted:
  "(\<forall>i j. i < j \<and> j < length (filtered_matches txt) \<longrightarrow>
      {fst (filtered_matches txt ! i)..<fst (snd (filtered_matches txt ! i))} \<inter>
      {fst (filtered_matches txt ! j)..<fst (snd (filtered_matches txt ! j))} = {}) \<and>
   sorted (map fst (filtered_matches txt)) \<and>
   subseq (filtered_matches txt) (sorted_matches txt) \<and>
   (\<forall>k. filter (\<lambda>m. fst m = k) (sorted_matches txt) =
        filter (\<lambda>m. fst m = k) (all_matches txt))"
proof (intro conjI allI impI)
  fix i j
  assume "i < j \<and> j < length (filtered_matches txt)"
  moreover have "sorted_wrt apart (filtered_matches txt)"
    by (simp add: filtered_matches_def filter_overlaps_apart)
  ultimately have "apart (filtered_matches txt ! i) (filtered_matches txt ! j)"
    by (simp add: sorted_wrt_iff_nth_less)
  then show "{fst (filtered_matches txt ! i)..<fst (snd (filtered_matches txt ! i))} \<inter>
      {fst (filtered_matches txt ! j)..<fst (snd (filtered_matches txt ! j))} = {}"
    by (rule apart_disjoint)
next
  have sub: "subseq (filtered_matches txt) (sorted_matches txt)"
    by (simp add: filtered_matches_def filter_overlaps_subseq)
  then show "subseq (filtered_matches txt) (sorted_matches txt)" .
  have "sorted (map fst (sorted_matches txt))"
    by (simp add: sorted_matches_def)
  then have "sorted_wrt (\<lambda>a b. fst a \<le> fst b) (sorted_matches txt)"
    by (simp add: sorted_wrt_map)
  from sorted_wrt_subseq_local [OF sub this]
  show "sorted (map fst (filtered_matches txt))"
    by (simp add: sorted_wrt_map)
next
  fix k
  show "filter (\<lambda>m. fst m = k) (sorted_matches txt) = filter (\<lambda>m. fst m = k) (all_matches txt)"
    by (simp add: sorted_matches_def sort_key_stable)
qed

lemma two_inline_all:
  "all_matches (py ''$a$ $b$'') = [(0, 3, Inline, py ''a''), (4, 7, Inline, py ''b'')]"
  by (simp add: re_eval scan_eval)

lemma two_inline_filtered:
  "filtered_matches (py ''$a$ $b$'') = [(0, 3, Inline, py ''a''), (4, 7, Inline, py ''b'')]"
  by (simp add: resolve_eval two_inline_all)

theorem accepted_spans_disjoint_sorted_witness:
  "filtered_matches (py ''$a$ $b$'') = [(0, 3, Inline, py ''a''), (4, 7, Inline, py ''b'')] \<and>
   (0::nat) < 1 \<and> 1 < length (filtered_matches (py ''$a$ $b$'')) \<and>
   {fst (filtered_matches (py ''$a$ $b$'') ! 0)..<fst (snd (filtered_matches (py ''$a$ $b$'') ! 0))} \<inter>
   {fst (filtered_matches (py ''$a$ $b$'') ! 1)..<fst (snd (filtered_matches (py ''$a$ $b$'') ! 1))} = {} \<and>
   sorted (map fst (filtered_matches (py ''$a$ $b$'')))"
proof -
  have len: "(0::nat) < 1 \<and> 1 < length (filtered_matches (py ''$a$ $b$''))"
    by (simp add: two_inline_filtered)
  from accepted_spans_disjoint_sorted [of "py ''$a$ $b$''"] len
  have "{fst (filtered_matches (py ''$a$ $b$'') ! 0)..<fst (snd (filtered_matches (py ''$a$ $b$'') ! 0))} \<inter>
   {fst (filtered_matches (py ''$a$ $b$'') ! 1)..<fst (snd (filtered_matches (py ''$a$ $b$'') ! 1))} = {}"
    by blast
  moreover from accepted_spans_disjoint_sorted [of "py ''$a$ $b$''"]
  have "sorted (map fst (filtered_matches (py ''$a$ $b$'')))" by blast
  ultimately show ?thesis using len two_inline_filtered by blast
qed

section \<open>Inputs without delimiters or markup\<close>

lemma search_no_match:
  assumes "\<And>p r. set r \<subseteq> A \<Longrightarrow> rmatch fl s re (p, r, []) = []"
  shows "set rest \<subseteq> A \<Longrightarrow> search fl re s pos rest = None"
proof (induction rest arbitrary: pos)
  case Nil
  with assms [of "[]" pos] show ?case
    by (subst search.simps) simp
next
  case (Cons x xs)
  from Cons.prems have "set xs \<subseteq> A" by simp
  from Cons.IH [OF this] assms [OF Cons.prems, of pos] show ?case
    by (subst search.simps) simp
qed

lemma finditer_no_match:
  assumes "\<And>p r. set r \<subseteq> set txt \<Longrightarrow> rmatch fl txt re (p, r, []) = []"
  shows "finditer fl re txt = []"
proof -
  have "search fl re txt 0 txt = None"
    by (rule search_no_match [where A = "set txt"]) (use assms in auto)
  then show ?thesis
    unfolding finditer_def by (subst finditer_from.simps) simp
qed

lemma re_sub_no_match:
  assumes "\<And>p r. set r \<subseteq> set txt \<Longrightarrow> rmatch fl txt re (p, r, []) = []"
  shows "re_sub fl re repl txt = txt"
  by (simp add: re_sub_def finditer_no_match [OF assms])

lemma seq_lit_no_match:
  "\<forall>x \<in> set r. \<not> lit_eq fl c x \<Longrightarrow> rmatch fl s (Seq (Lit c) b) (p, r, g) = []"
  by (cases r) (simp_all add: rmatch.simps one_char_def)

lemma seq_behind_lit_no_match:
  "\<forall>x \<in> set r. \<not> lit_eq fl c x \<Longrightarrow>
   rmatch fl s (Seq (NotBehind a) (Seq (Lit c) b)) (p, r, g) = []"
  using seq_lit_no_match [of r fl c s b p g]
  by (simp add: rmatch.simps(8) [of fl s "NotBehind a"] rmatch.simps(15))

lemma lit_eq_plain [simp]: "lit_eq [] c x \<longleftrightarrow> x = c"
  by (simp add: lit_eq_def)

lemma lit_eq_LT [simp]: "lit_eq fl LT x \<longleftrightarrow> x = LT"
  by (simp add: lit_eq_def case_variants_def)

lemma lit_eq_DOLLAR [simp]: "lit_eq fl DOLLAR x \<longleftrightarrow> x = DOLLAR"
  by (simp add: lit_eq_def case_variants_def)

lemma lit_eq_BS [simp]: "lit_eq fl BS x \<longleftrightarrow> x = BS"
  by (simp add: lit_eq_def case_variants_def)

lemma no_dollar_block: "DOLLAR \<notin> set txt \<Longrightarrow> finditer fl re_block_dollar txt = []"
  by (rule finditer_no_match) (auto simp: re_block_dollar_def intro!: seq_lit_no_match)

lemma no_dollar_inline: "DOLLAR \<notin> set txt \<Longrightarrow> finditer fl re_inline_dollar txt = []"
  by (rule finditer_no_match) (auto simp: re_inline_dollar_def intro!: seq_behind_lit_no_match)

lemma no_bs_bracket: "BS \<notin> set txt \<Longrightarrow> finditer fl re_block_bracket txt = []"
  by (rule finditer_no_match) (auto simp: re_block_bracket_def intro!: seq_lit_no_match)

lemma no_bs_paren: "BS \<notin> set txt \<Longrightarrow> finditer fl re_inline_paren txt = []"
  by (rule finditer_no_match) (auto simp: re_inline_paren_def intro!: seq_lit_no_match)

lemma no_bs_processed_line: "BS \<notin> set line \<Longrightarrow> processed_line line = line"
  unfolding processed_line_def
  by (rule re_sub_no_match) (auto simp: re_fix_escape_def intro!: seq_lit_no_match)

lemma all_matches_plain:
  "DOLLAR \<notin> set txt \<Longrightarrow> BS \<notin> set txt \<Longrightarrow> all_matches txt = []"
  by (simp add: all_matches_def no_dollar_block no_dollar_inline no_bs_bracket no_bs_paren)

lemma filtered_matches_plain:
  "DOLLAR \<notin> set txt \<Longrightarrow> BS \<notin> set txt \<Longrightarrow> filtered_matches txt = []"
  by (simp add: filtered_matches_def sorted_matches_def filter_overlaps_def all_matches_plain)

lemma html_pattern_no_match:
  "re \<in> set html_patterns \<Longrightarrow> LT \<notin> set txt \<Longrightarrow> re_sub [IGNORECASE] re [] txt = txt"
  by (rule re_sub_no_match)
     (auto simp: html_patterns_def re_empty_div_def re_empty_div_div_def re_hr_def
        re_hr_closed_def re_img_def re_img_closed_def re_empty_span_def re_empty_p_def
        re_br_def lits_def py_def
      intro!: seq_lit_no_match)

lemma fold_html_id:
  "set rs \<subseteq> set html_patterns \<Longrightarrow> LT \<notin> set txt \<Longrightarrow>
   fold (\<lambda>r content. re_sub [IGNORECASE] r [] content) rs txt = txt"
  by (induction rs) (simp_all add: html_pattern_no_match)

lemma clean_html_content_plain: "LT \<notin> set txt \<Longrightarrow> clean_html_content txt = txt"
  by (simp add: clean_html_content_def fold_html_id)

lemma split_nl_nonempty: "split_nl s \<noteq> []"
  by (induction s) (auto split: list.splits)

lemma join_split_nl: "join_nl (split_nl s) = s"
proof (induction s)
  case Nil
  show ?case by simp
next
  case (Cons c cs)
  obtain l ls where sp: "split_nl cs = l # ls"
    using split_nl_nonempty [of cs] by (cases "split_nl cs") auto
  with Cons show ?case by (cases ls) auto
qed

lemma split_nl_sets: "l \<in> set (split_nl s) \<Longrightarrow> set l \<subseteq> set s"
proof (induction s arbitrary: l)
  case Nil
  then show ?case by simp
next
  case (Cons c cs)
  then show ?case
    by (cases "split_nl cs") (fastforce split: if_splits)+
qed

lemma processed_text_plain: "BS \<notin> set txt \<Longrightarrow> processed_text txt = txt"
proof -
  assume "BS \<notin> set txt"
  then have "\<forall>l \<in> set (split_nl txt). processed_line l = l"
    using split_nl_sets no_bs_processed_line by blast
  then have "map processed_line (split_nl txt) = split_nl txt"
    by (simp add: map_idI)
  then show ?thesis by (simp add: processed_text_def join_split_nl)
qed

section \<open>The two merges\<close>

lemma has_real_content_nonempty: "has_real_content s \<Longrightarrow> s \<noteq> []"
  by (auto simp: has_real_content_iff)

lemma not_has_real_content_Nil [simp]: "\<not> has_real_content []"
  by (simp add: has_real_content_iff)

lemma parts_step_good:
  "good_parts (snd st) \<Longrightarrow> good_parts (snd (parts_step txt m st))"
  by (cases m; cases st) (auto simp: parts_step_def good_parts_def Let_def)

lemma fold_parts_step_good:
  "good_parts (snd st) \<Longrightarrow> good_parts (snd (fold (parts_step txt) ms st))"
  by (induction ms arbitrary: st) (simp_all add: parts_step_good)

lemma result_parts_good: "good_parts (result_parts txt ms)"
proof -
  have "good_parts (snd (fold (parts_step txt) ms (0, [])))"
    by (rule fold_parts_step_good) (simp add: good_parts_def)
  then show ?thesis
    by (cases "fold (parts_step txt) ms (0, [])")
       (auto simp: result_parts_def good_parts_def Let_def)
qed

lemma text_blocks_step_ok:
  assumes "blocks_ok bs" "ends_block bs" "has_real_content (snd p)"
  shows "blocks_ok (snd (text_blocks_step p (cur, bs))) \<and>
         ends_block (snd (text_blocks_step p (cur, bs)))"
  using assms
  by (cases p; cases "fst p")
     (auto simp: text_blocks_step_def blocks_ok_def ends_block_def Let_def
                 successively_append_iff)

lemma fold_text_blocks_step_ok:
  "blocks_ok bs \<Longrightarrow> ends_block bs \<Longrightarrow> good_parts ps \<Longrightarrow>
   blocks_ok (snd (fold text_blocks_step ps (cur, bs))) \<and>
   ends_block (snd (fold text_blocks_step ps (cur, bs)))"
proof (induction ps arbitrary: cur bs)
  case Nil
  then show ?case by simp
next
  case (Cons p ps)
  obtain cur' bs' where st: "text_blocks_step p (cur, bs) = (cur', bs')"
    by (cases "text_blocks_step p (cur, bs)")
  from Cons.prems have "has_real_content (snd p)" "good_parts ps"
    by (auto simp: good_parts_def)
  with text_blocks_step_ok [OF Cons.prems(1,2), of p cur] st
  have "blocks_ok bs'" "ends_block bs'" by auto
  from Cons.IH [OF this \<open>good_parts ps\<close>, of cur'] st show ?case by simp
qed

lemma text_blocks_ok: "good_parts ps \<Longrightarrow> blocks_ok (text_blocks ps)"
proof -
  assume g: "good_parts ps"
  obtain cur bs where st: "fold text_blocks_step ps ([], []) = (cur, bs)"
    by (cases "fold text_blocks_step ps ([], [])")
  have "blocks_ok []" "ends_block []" by (simp_all add: blocks_ok_def ends_block_def)
  from fold_text_blocks_step_ok [OF this g, of "[]"] st
  have "blocks_ok bs" "ends_block bs" by auto
  then show ?thesis
    by (auto simp: text_blocks_def st blocks_ok_def ends_block_def successively_append_iff)
qed

lemma blocks_ok_butlast: "blocks_ok (xs @ [x]) \<Longrightarrow> blocks_ok xs"
  by (auto simp: blocks_ok_def successively_append_iff)

lemma blocks_ok_take: "blocks_ok bs \<Longrightarrow> blocks_ok (take k bs)"
proof -
  assume "blocks_ok bs"
  then have "blocks_ok (take k bs @ drop k bs)" by simp
  then show ?thesis
    unfolding blocks_ok_def successively_append_iff by (auto dest: in_set_takeD)
qed

lemma merged_step_text:
  "has_real_content c \<Longrightarrow> merged_blocks_step (Text, c) ([], m) = (c, m)"
  by (simp add: merged_blocks_step_def)

lemma merged_step_block:
  "has_real_content c \<Longrightarrow>
   merged_blocks_step (Block_latex, c) (cur, m) =
     (if has_real_content cur then ([], m @ [(Text, cur), (Block_latex, c)])
      else (cur, m @ [(Block_latex, c)]))"
  by (simp add: merged_blocks_step_def Let_def)

lemma fold_merged_blocks_step:
  "blocks_ok tb \<Longrightarrow>
   fold merged_blocks_step tb ([], []) =
     (if tb \<noteq> [] \<and> fst (last tb) = Text then (snd (last tb), butlast tb) else ([], tb))"
proof (induction tb rule: rev_induct)
  case Nil
  then show ?case by simp
next
  case (snoc x xs)
  from snoc.prems have okxs: "blocks_ok xs" by (rule blocks_ok_butlast)
  note IH = snoc.IH [OF okxs]
  from snoc.prems have hx: "has_real_content (snd x)" and nx: "fst x \<noteq> Inline_latex"
    and link: "xs = [] \<or> (fst (last xs) = Text \<longrightarrow> fst x = Block_latex)"
    by (auto simp: blocks_ok_def successively_append_iff)
  from hx have ne: "snd x \<noteq> []" by (rule has_real_content_nonempty)
  show ?case
  proof (cases "fst x")
    case Text
    with link have "\<not> (xs \<noteq> [] \<and> fst (last xs) = Text)" by auto
    with IH have "fold merged_blocks_step xs ([], []) = ([], xs)" by simp
    with Text hx show ?thesis
      by (cases x) (simp add: merged_step_text)
  next
    case Inline_latex
    with nx show ?thesis by simp
  next
    case Block_latex
    show ?thesis
    proof (cases "xs \<noteq> [] \<and> fst (last xs) = Text")
      case True
      with IH have st: "fold merged_blocks_step xs ([], []) = (snd (last xs), butlast xs)" by simp
      from True okxs have "has_real_content (snd (last xs))"
        by (auto simp: blocks_ok_def)
      moreover from True have "butlast xs @ [(Text, snd (last xs))] = xs"
        by (metis append_butlast_last_id prod.collapse)
      ultimately show ?thesis using Block_latex hx st
        by (cases x) (simp add: merged_step_block)
    next
      case False
      with IH have "fold merged_blocks_step xs ([], []) = ([], xs)" by simp
      with Block_latex hx show ?thesis
        by (cases x) (simp add: merged_step_block)
    qed
  qed
qed

lemma merged_blocks_id: "blocks_ok tb \<Longrightarrow> merged_blocks tb = tb"
proof -
  assume ok: "blocks_ok tb"
  show ?thesis
  proof (cases "tb \<noteq> [] \<and> fst (last tb) = Text")
    case True
    with ok have "has_real_content (snd (last tb))" by (auto simp: blocks_ok_def)
    moreover from True have "butlast tb @ [(Text, snd (last tb))] = tb"
      by (metis append_butlast_last_id prod.collapse)
    ultimately show ?thesis using True
      by (simp add: merged_blocks_def fold_merged_blocks_step [OF ok])
  next
    case False
    then show ?thesis
      by (auto simp: merged_blocks_def fold_merged_blocks_step [OF ok])
  qed
qed

lemma blocks_ok_adjacent:
  "blocks_ok tb \<Longrightarrow> Suc i < length tb \<Longrightarrow> fst (tb ! i) = Text \<Longrightarrow> fst (tb ! Suc i) = Block_latex"
  by (auto simp: blocks_ok_def successively_conv_nth)

lemma no_join:
  assumes ok: "blocks_ok tb" and k: "k < length tb" and t: "fst (tb ! k) = Text"
  shows "fst (fold merged_blocks_step (take k tb) ([], [])) = []"
proof (cases k)
  case 0
  then show ?thesis by simp
next
  case (Suc j)
  with k have lt: "last (take k tb) = tb ! j"
    by (simp add: take_Suc_conv_app_nth)
  from blocks_ok_adjacent [OF ok, of j] Suc k t have "fst (tb ! j) \<noteq> Text"
    by auto
  with lt show ?thesis
    by (simp add: fold_merged_blocks_step [OF blocks_ok_take [OF ok]])
qed

section \<open>The repair of doubled backslashes\<close>

lemma lit_eq_plain_fun: "lit_eq [] c = (\<lambda>x. x = c)"
  by (rule ext) (simp add: lit_eq_def)

lemma group2_fails:
  "rmatch [] s (Group 2 (OneOf [LBRACKET, LPAREN])) (q, BS # xs, g) = []"
  by (simp add: rmatch.simps one_char_def lit_eq_def)

lemma group2_result:
  "rmatch [] s (Group 2 (OneOf [LBRACKET, LPAREN])) (q, r, g) =
     (case r of [] \<Rightarrow> []
      | d # r3 \<Rightarrow> if d = LBRACKET \<or> d = LPAREN then [(Suc q, r3, (2, q, Suc q) # g)] else [])"
  by (cases r) (auto simp: rmatch.simps one_char_def lit_eq_def)

lemma plus_bs:
  assumes "p + length r \<le> length s"
  shows "rmatch [] s (Plus (Lit BS)) (p, r, g) =
     (case r of [] \<Rightarrow> [] | x # xs \<Rightarrow> if x = BS then run_states isBS (Suc p) xs g else [])"
proof (cases r)
  case Nil
  then show ?thesis by (simp add: rmatch.simps one_char_def)
next
  case (Cons x xs)
  with assms have "Suc p + length xs \<le> length s" by simp
  from greedy_one_char [OF this, of isBS g] Cons show ?thesis
    by (simp add: rmatch.simps(11) rmatch_Lit_eq lit_eq_plain_fun one_char_def [of _ "(p, x # xs, g)"])
qed

lemma fix_escape_tail:
  assumes "q + length r \<le> length s"
  shows "rmatch [] s (Seq (Group 1 (Plus (Lit BS))) (Group 2 (OneOf [LBRACKET, LPAREN]))) (q, r, [])
     = (case r of [] \<Rightarrow> []
        | x # xs \<Rightarrow>
            if x = BS then
              rmatch [] s (Group 2 (OneOf [LBRACKET, LPAREN]))
                (Suc q + length (takeWhile isBS xs), dropWhile isBS xs,
                 [(1, q, Suc q + length (takeWhile isBS xs))])
            else [])"
proof (cases r)
  case Nil
  with plus_bs [OF assms, of "[]"] show ?thesis
    by (simp add: rmatch.simps(8) rmatch.simps(13))
next
  case (Cons x xs)
  show ?thesis
  proof (cases "x = BS")
    case False
    with Cons plus_bs [OF assms, of "[]"] show ?thesis
      by (simp add: rmatch.simps(8) rmatch.simps(13))
  next
    case True
    let ?F = "\<lambda>st'. rmatch [] s (Group 2 (OneOf [LBRACKET, LPAREN]))
                 (pos_of st', rest_of st', (1, q, pos_of st') # groups_of st')"
    have fails: "\<And>q' x xs. isBS x \<Longrightarrow> ?F (q', x # xs, []) = []"
      by (simp add: group2_fails)
    have "rmatch [] s (Seq (Group 1 (Plus (Lit BS))) (Group 2 (OneOf [LBRACKET, LPAREN]))) (q, r, [])
            = concat (map ?F (run_states isBS (Suc q) xs []))"
      using Cons True plus_bs [OF assms, of "[]"]
      by (simp add: rmatch.simps(8) rmatch.simps(13) comp_def)
    also have "\<dots> = ?F (Suc q + length (takeWhile isBS xs), dropWhile isBS xs, [])"
      by (rule run_states_concat [where F = ?F, OF fails])
    finally show ?thesis using Cons True by simp
  qed
qed

lemma fix_escape_match:
  assumes "p + length r \<le> length s"
  shows "rmatch [] s re_fix_escape (p, r, []) =
     (if reducible r then
        [(p + 3 + length (takeWhile isBS (drop 2 r)), tl (dropWhile isBS (drop 2 r)),
          [(2, p + 2 + length (takeWhile isBS (drop 2 r)), p + 3 + length (takeWhile isBS (drop 2 r))),
           (1, Suc p, p + 2 + length (takeWhile isBS (drop 2 r)))])]
      else [])"
proof (cases r)
  case Nil
  then show ?thesis
    by (simp add: re_fix_escape_def rmatch.simps(8) [of _ _ "Lit BS"] rmatch.simps(2) one_char_def reducible_def)
next
  case (Cons x r1)
  show ?thesis
  proof (cases "x = BS")
    case False
    with Cons show ?thesis
      by (simp add: re_fix_escape_def rmatch.simps(8) [of _ _ "Lit BS"] rmatch.simps(2)
            one_char_def reducible_def lit_eq_def)
  next
    case True
    from assms Cons have le: "Suc p + length r1 \<le> length s" by simp
    have step: "rmatch [] s re_fix_escape (p, r, []) =
        rmatch [] s (Seq (Group 1 (Plus (Lit BS))) (Group 2 (OneOf [LBRACKET, LPAREN]))) (Suc p, r1, [])"
      using Cons True
      by (simp add: re_fix_escape_def rmatch.simps(8) [of _ _ "Lit BS"] rmatch.simps(2)
            one_char_def lit_eq_def)
    show ?thesis
    proof (cases r1)
      case Nil
      with Cons True step fix_escape_tail [OF le] show ?thesis
        by (simp add: reducible_def)
    next
      case (Cons y r2)
      note r1 = Cons
      show ?thesis
      proof (cases "y = BS")
        case False
        with r1 \<open>r = x # r1\<close> True step fix_escape_tail [OF le] show ?thesis
          by (simp add: reducible_def)
      next
        case yBS: True
        show ?thesis
        proof (cases "dropWhile isBS r2")
          case Nil
          with r1 \<open>r = x # r1\<close> True yBS step fix_escape_tail [OF le] show ?thesis
            by (simp add: reducible_def opens_def group2_result
                     del: dropWhile_eq_Nil_conv)
        next
          case (Cons d r3)
          with r1 \<open>r = x # r1\<close> True yBS step fix_escape_tail [OF le] show ?thesis
            by (simp add: reducible_def opens_def group2_result)
        qed
      qed
    qed
  qed
qed


lemma search_step:
  "search fl r s pos (x # xs) =
     (case rmatch fl s r (pos, x # xs, []) of
        [] \<Rightarrow> search fl r s (Suc pos) xs
      | st # _ \<Rightarrow> Some (pos, x # xs, st))"
  by (subst search.simps) (simp split: list.splits)

lemma search_pos_le:
  "search fl r s pos rest = Some (b, rb, st) \<Longrightarrow> pos \<le> b"
proof (induction rest arbitrary: pos)
  case Nil
  then show ?case
    by (subst (asm) search.simps) (simp split: list.splits)
next
  case (Cons x xs)
  show ?case
  proof (cases "rmatch fl s r (pos, x # xs, [])")
    case Nil
    with Cons.prems have "search fl r s (Suc pos) xs = Some (b, rb, st)"
      by (simp add: search_step)
    from Cons.IH [OF this] show ?thesis by simp
  next
    case (Cons a as)
    with Cons.prems show ?thesis by (simp add: search_step)
  qed
qed

lemma finditer_from_start:
  "finditer_from fl r s pos rest = (b, e, g) # ms \<Longrightarrow> pos \<le> b"
  by (subst (asm) finditer_from.simps) (auto split: option.splits dest: search_pos_le)

lemma finditer_from_cong:
  "search fl r s pos rest = search fl r s pos' rest' \<Longrightarrow>
   finditer_from fl r s pos rest = finditer_from fl r s pos' rest'"
  by (simp add: finditer_from.simps [of fl r s pos rest] finditer_from.simps [of fl r s pos' rest'])

lemma sub_build_skip:
  assumes "drop pos s = x # xs" and "\<And>b e g ms'. ms = (b, e, g) # ms' \<Longrightarrow> Suc pos \<le> b"
  shows "sub_build s repl pos ms = x # sub_build s repl (Suc pos) ms"
proof -
  from assms(1) have d: "drop (Suc pos) s = xs"
    by (metis drop_Suc list.sel(3) tl_drop)
  show ?thesis
  proof (cases ms)
    case Nil
    with assms(1) d show ?thesis by simp
  next
    case (Cons m ms')
    obtain b e g where m: "m = (b, e, g)" by (cases m)
    with Cons assms(2) have "Suc pos \<le> b" by simp
    then have "b - pos = Suc (b - Suc pos)" by simp
    with Cons m assms(1) d show ?thesis by simp
  qed
qed

lemma reduce_runs_plain:
  "\<not> reducible (x # xs) \<Longrightarrow> spec_reduce_runs (x # xs) = x # spec_reduce_runs xs"
proof (cases "x = BS")
  case False
  then show ?thesis by (simp add: spec_reduce_runs.simps(2))
next
  case True
  assume nr: "\<not> reducible (x # xs)"
  show ?thesis
  proof (cases xs)
    case Nil
    with True show ?thesis by (simp add: spec_reduce_runs.simps(2))
  next
    case (Cons y ys)
    show ?thesis
    proof (cases "y = BS")
      case False
      with True Cons show ?thesis
        by (simp add: spec_reduce_runs.simps(2))
    next
      case yBS: True
      with nr True Cons have "\<not> opens (dropWhile isBS ys)"
        by (simp add: reducible_def)
      with True Cons yBS show ?thesis
        by (simp add: spec_reduce_runs.simps(2) opens_def Let_def)
    qed
  qed
qed

lemma reduce_runs_reducible:
  assumes "dropWhile isBS r2 = d # r3" "d = LBRACKET \<or> d = LPAREN"
  shows "spec_reduce_runs (BS # BS # r2) = BS # takeWhile isBS r2 @ d # spec_reduce_runs r3"
proof -
  from assms(2) have "d \<noteq> BS" by auto
  then have "spec_reduce_runs (d # r3) = d # spec_reduce_runs r3"
    by (simp add: spec_reduce_runs.simps(2))
  with assms show ?thesis
    by (simp add: spec_reduce_runs.simps(2) [of BS] Let_def)
qed

lemma fix_escape_sub:
  "rest = drop pos s \<Longrightarrow> pos \<le> length s \<Longrightarrow>
   sub_build s [TGroup 1, TGroup 2] pos (finditer_from [] re_fix_escape s pos rest) = spec_reduce_runs rest"
proof (induction "length rest" arbitrary: pos rest rule: less_induct)
  case less
  note rest = \<open>rest = drop pos s\<close>
  from less.prems have len: "pos + length rest \<le> length s" by simp
  note m = fix_escape_match [OF len]
  show ?case
  proof (cases rest)
    case Nil
    with m have "rmatch [] s re_fix_escape (pos, [], []) = []"
      by (simp add: reducible_def)
    then have "search [] re_fix_escape s pos [] = None"
      by (subst search.simps) simp
    then have "finditer_from [] re_fix_escape s pos [] = []"
      by (subst finditer_from.simps) simp
    with Nil rest show ?thesis by simp
  next
    case (Cons x xs)
    show ?thesis
    proof (cases "reducible rest")
      case False
      with m Cons have "rmatch [] s re_fix_escape (pos, x # xs, []) = []" by simp
      then have "search [] re_fix_escape s pos (x # xs) = search [] re_fix_escape s (Suc pos) xs"
        by (simp add: search_step)
      then have fi: "finditer_from [] re_fix_escape s pos (x # xs) =
                     finditer_from [] re_fix_escape s (Suc pos) xs"
        by (rule finditer_from_cong)
      from rest Cons have d: "drop pos s = x # xs" by simp
      then have dx: "xs = drop (Suc pos) s"
        by (metis drop_Suc list.sel(3) tl_drop)
      from d have "pos < length s"
        by (metis drop_all list.distinct(1) not_le_imp_less)
      then have ple: "Suc pos \<le> length s" by simp
      have IH: "sub_build s [TGroup 1, TGroup 2] (Suc pos)
                  (finditer_from [] re_fix_escape s (Suc pos) xs) = spec_reduce_runs xs"
        by (rule less.hyps [OF _ dx ple]) (simp add: Cons)
      have "sub_build s [TGroup 1, TGroup 2] pos (finditer_from [] re_fix_escape s (Suc pos) xs) =
            x # sub_build s [TGroup 1, TGroup 2] (Suc pos) (finditer_from [] re_fix_escape s (Suc pos) xs)"
        by (rule sub_build_skip [OF d]) (rule finditer_from_start)
      with IH fi Cons reduce_runs_plain [of x xs] False show ?thesis by simp
    next
      case True
      then obtain r2 where r: "rest = BS # BS # r2" and op: "opens (dropWhile isBS r2)"
        by (auto simp: reducible_def split: list.splits)
      then obtain d r3 where dw: "dropWhile isBS r2 = d # r3" and dd: "d = LBRACKET \<or> d = LPAREN"
        by (auto simp: opens_def split: list.splits)
      define K where "K = length (takeWhile isBS r2)"
      define e where "e = pos + 3 + K"
      define g where "g = [(2::nat, pos + 2 + K, pos + 3 + K), (1, Suc pos, pos + 2 + K)]"
      have r2eq: "r2 = takeWhile isBS r2 @ d # r3"
        using dw takeWhile_dropWhile_id [of isBS r2] by simp
      have resteq: "rest = BS # BS # takeWhile isBS r2 @ d # r3"
        using r r2eq by simp
      have ds: "drop pos s = BS # BS # takeWhile isBS r2 @ d # r3"
        using rest resteq by simp
      from True m r dw have "rmatch [] s re_fix_escape (pos, rest, []) = [(e, r3, g)]"
        by (simp add: e_def g_def K_def)
      then have "search [] re_fix_escape s pos rest = Some (pos, rest, e, r3, g)"
        using r by (simp add: search_step)
      moreover have l3: "length r3 < length rest"
        by (subst resteq) simp
      ultimately have fi: "finditer_from [] re_fix_escape s pos rest =
           (pos, e, g) # finditer_from [] re_fix_escape s e r3"
        by (subst finditer_from.simps) simp
      have "length rest = 3 + K + length r3"
        by (subst resteq) (simp add: K_def)
      with len have ele: "e \<le> length s" by (simp add: e_def)
      have "e = Suc (Suc (Suc K)) + pos" by (simp add: e_def)
      then have "drop e s = drop (Suc (Suc (Suc K))) (drop pos s)"
        by (simp only: drop_drop)
      also have "\<dots> = r3"
        by (subst ds) (simp add: K_def)
      finally have d3: "r3 = drop e s" by simp
      have IH: "sub_build s [TGroup 1, TGroup 2] e (finditer_from [] re_fix_escape s e r3) =
                spec_reduce_runs r3"
        by (rule less.hyps [OF l3 d3 ele])
      have "drop (Suc pos) s = BS # takeWhile isBS r2 @ d # r3"
        using ds by (metis drop_Suc list.sel(3) tl_drop)
      then have g1: "group_text s g 1 = BS # takeWhile isBS r2"
        by (simp add: group_text_def g_def K_def)
      have "pos + 2 + K = Suc (Suc K) + pos" by simp
      then have "drop (pos + 2 + K) s = drop (Suc (Suc K)) (drop pos s)"
        by (simp only: drop_drop)
      also have "\<dots> = d # r3"
        by (subst ds) (simp add: K_def)
      finally have g2: "group_text s g 2 = [d]"
        by (simp add: group_text_def g_def)
      have "sub_build s [TGroup 1, TGroup 2] pos (finditer_from [] re_fix_escape s pos rest) =
            BS # takeWhile isBS r2 @ d # spec_reduce_runs r3"
        using IH g1 g2 by (simp add: fi)
      also have "\<dots> = spec_reduce_runs rest"
        unfolding r by (rule reduce_runs_reducible [OF dw dd, symmetric])
      finally show ?thesis .
    qed
  qed
qed

lemma processed_line_reduce_runs: "processed_line line = spec_reduce_runs line"
  using fix_escape_sub [of line 0 line]
  by (simp add: processed_line_def re_sub_def finditer_def)

lemma processed_line_eq: "processed_line = spec_reduce_runs"
  by (rule ext) (rule processed_line_reduce_runs)

lemma processed_text_reduce_runs:
  "processed_text txt = join_nl (map spec_reduce_runs (split_nl txt))"
  by (simp add: processed_text_def processed_line_eq)

section \<open>Rendering\<close>

lemma not_isspace_backtick: "\<not> isspace BACKTICK"
  by (simp add: isspace_def)

lemma filter_dropWhile_not:
  "filter (\<lambda>c. \<not> P c) (dropWhile P s) = filter (\<lambda>c. \<not> P c) s"
  by (induction s) auto

lemma filter_strip: "filter (\<lambda>c. \<not> isspace c) (strip s) = filter (\<lambda>c. \<not> isspace c) s"
proof -
  have "filter (\<lambda>c. \<not> isspace c) (rstrip s) = filter (\<lambda>c. \<not> isspace c) s"
    unfolding rstrip_def
    by (metis filter_dropWhile_not rev_filter rev_rev_ident)
  then show ?thesis
    by (simp add: strip_def lstrip_def filter_dropWhile_not)
qed

lemma has_real_content_filter:
  "has_real_content s \<longleftrightarrow> filter (\<lambda>c. \<not> isspace c) s \<noteq> []"
  by (simp add: has_real_content_iff filter_empty_conv)

lemma has_real_content_strip: "has_real_content (strip s) = has_real_content s"
  by (simp add: has_real_content_filter filter_strip)

lemma set_py_replace_bs: "set (py_replace [BS, BS] [BS] s) = set s"
proof (induction "[BS, BS]" "[BS]" s rule: py_replace.induct)
  case (1 s)
  show ?case
  proof (cases "s = []")
    case True
    then show ?thesis by (simp add: py_replace.simps [of _ _ "[]"])
  next
    case False
    show ?thesis
    proof (cases "take (length [BS, BS]) s = [BS, BS]")
      case True
      then obtain rest where s: "s = BS # BS # rest"
        by (cases s; cases "tl s") (auto split: if_splits)
      from "1.hyps"(1) [OF False] True have "set (py_replace [BS, BS] [BS] (drop (length [BS, BS]) s)) = set (drop (length [BS, BS]) s)"
        by simp
      with s show ?thesis
        by (subst py_replace.simps) auto
    next
      case nomatch: False
      from "1.hyps"(2) [OF False] nomatch have "set (py_replace [BS, BS] [BS] (tl s)) = set (tl s)"
        by simp
      with False nomatch show ?thesis
        by (subst py_replace.simps) (cases s, auto)
    qed
  qed
qed

lemma has_real_content_cleaned:
  "has_real_content f \<Longrightarrow> has_real_content (cleaned_formula f)"
  by (simp add: cleaned_formula_def has_real_content_strip)
     (simp add: has_real_content_iff set_py_replace_bs)

lemma render_block_math:
  assumes "has_real_content f"
  shows "render_block surf tr (Block_latex, f) =
     (case surf tr (Latex f) of
        Returns \<Rightarrow> (tr @ [Latex f], Returns)
      | Raises_Other \<Rightarrow> (tr @ [Latex f], Raises_Other)
      | Raises_Exception \<Rightarrow>
          (if surf (tr @ [Latex f]) (Latex (cleaned_formula f)) = Returns
           then (tr @ [Latex f, Latex (cleaned_formula f)], Returns)
           else (tr @ [Latex f, Latex (cleaned_formula f),
                       Markdown ([BACKTICK] @ cleaned_formula f @ [BACKTICK])],
                 surf (tr @ [Latex f, Latex (cleaned_formula f)])
                      (Markdown ([BACKTICK] @ cleaned_formula f @ [BACKTICK])))))"
  using assms has_real_content_cleaned [OF assms]
  by (simp add: render_block_def invoke_def split: outcome.splits)

lemma render_block_text:
  "render_block surf tr (Text, c) =
     (if has_real_content c \<and> clean_html_content (strip c) \<noteq> [] \<and>
         has_real_content (clean_html_content (strip c))
      then (tr @ [Markdown (clean_html_content (strip c))],
            surf tr (Markdown (clean_html_content (strip c))))
      else (tr, Returns))"
  by (simp add: render_block_def invoke_def Let_def)

lemma render_block_inline:
  "render_block surf tr (Inline_latex, f) = render_block surf tr (Block_latex, f)"
  by (simp add: render_block_def)

lemma render_block_payloads:
  assumes "\<forall>c \<in> set tr. has_real_content (payload c)"
  shows "\<forall>c \<in> set (fst (render_block surf tr b)). has_real_content (payload c)"
proof (cases b)
  case (Pair ty c)
  show ?thesis
  proof (cases ty)
    case Text
    with Pair assms show ?thesis by (simp add: render_block_text)
  next
    case Block_latex
    show ?thesis
    proof (cases "has_real_content c")
      case True
      have "has_real_content ([BACKTICK] @ cleaned_formula c @ [BACKTICK])"
        by (simp add: has_real_content_iff not_isspace_backtick)
      with True Pair Block_latex assms has_real_content_cleaned [OF True] show ?thesis
        by (simp add: render_block_math split: outcome.splits)
    next
      case False
      with Pair Block_latex assms show ?thesis by (simp add: render_block_def)
    qed
  next
    case Inline_latex
    show ?thesis
    proof (cases "has_real_content c")
      case True
      have "has_real_content ([BACKTICK] @ cleaned_formula c @ [BACKTICK])"
        by (simp add: has_real_content_iff not_isspace_backtick)
      with True Pair Inline_latex assms has_real_content_cleaned [OF True] show ?thesis
        by (simp add: render_block_inline render_block_math split: outcome.splits)
    next
      case False
      with Pair Inline_latex assms show ?thesis by (simp add: render_block_def)
    qed
  qed
qed

lemma render_blocks_payloads:
  "\<forall>c \<in> set tr. has_real_content (payload c) \<Longrightarrow>
   \<forall>c \<in> set (fst (render_blocks surf tr bs)). has_real_content (payload c)"
proof (induction bs arbitrary: tr)
  case Nil
  then show ?case by simp
next
  case (Cons b bs)
  obtain tr1 r where rb: "render_block surf tr b = (tr1, r)"
    by (cases "render_block surf tr b")
  with render_block_payloads [OF Cons.prems, of surf b]
  have ok: "\<forall>c \<in> set tr1. has_real_content (payload c)" by simp
  show ?case
  proof (cases r)
    case Returns
    with rb Cons.IH [OF ok] show ?thesis by simp
  next
    case Raises_Exception
    with rb ok show ?thesis by simp
  next
    case Raises_Other
    with rb ok show ?thesis by simp
  qed
qed

lemma render_plain_payloads:
  "\<forall>c \<in> set (fst (render_plain surf txt)). has_real_content (payload c)"
  by (simp add: render_plain_def invoke_def Let_def)

lemma all_space_no_special:
  "\<forall>c \<in> set s. isspace c \<Longrightarrow> DOLLAR \<notin> set s \<and> BS \<notin> set s"
  by (auto simp: isspace_def)

section \<open>The examples\<close>

lemmas norm_eval = processed_text_def processed_line_def re_sub_def re_fix_escape_def

lemmas seg_eval =
  result_parts_def parts_step_def slice_def text_blocks_def text_blocks_step_def
  merged_blocks_def merged_blocks_step_def has_real_content_iff isspace_def Let_def

lemmas render_eval =
  render_plain_def render_block_text render_block_math invoke_def accepting_def latex_rejecting_def
  cleaned_formula_def clean_html_content_plain strip_def lstrip_def rstrip_def
  has_real_content_iff isspace_def Let_def

lemmas example_defs =
  example_mixed_def example_formula_def example_blank_block_def example_nested_def
  example_doubled_def example_linebreak_def

lemma render_text_with_latex_blocks:
  "text0 \<noteq> [] \<Longrightarrow> processed_text text0 = txt \<Longrightarrow> filtered_matches txt = m # ms \<Longrightarrow>
   merged_blocks (text_blocks (result_parts txt (m # ms))) = bs \<Longrightarrow>
   render_text_with_latex surf text0 = render_blocks surf [] bs"
  by (simp add: render_text_with_latex_def Let_def)

lemma render_text_with_latex_plain:
  "text0 \<noteq> [] \<Longrightarrow> processed_text text0 = txt \<Longrightarrow> filtered_matches txt = [] \<Longrightarrow>
   render_text_with_latex surf text0 = render_plain surf txt"
  by (simp add: render_text_with_latex_def Let_def)

lemma mixed_processed: "processed_text example_mixed = example_mixed"
  by (simp add: example_defs norm_eval re_eval)

lemma mixed_all:
  "all_matches example_mixed = [(20, 52, Block, example_formula), (6, 13, Inline, py ''x+1=2'')]"
  by (simp add: example_defs re_eval scan_eval)

lemma mixed_filtered:
  "filtered_matches example_mixed =
     [(6, 13, Inline, py ''x+1=2''), (20, 52, Block, example_formula)]"
  by (simp only: filtered_matches_def sorted_matches_def mixed_all)
     (simp add: filter_overlaps_def filter_step_def overlaps_def)

lemma mixed_parts:
  "result_parts example_mixed [(6, 13, Inline, py ''x+1=2''), (20, 52, Block, example_formula)] =
     [(Text, py ''Solve ''), (Inline_latex, py ''x+1=2''), (Text, py '' then'' @ [NL, NL]),
      (Block_latex, example_formula), (Text, [NL, NL] @ py ''Done.'')]"
  by (simp add: example_defs seg_eval py_def)

lemma mixed_blocks:
  "text_blocks
     [(Text, py ''Solve ''), (Inline_latex, py ''x+1=2''), (Text, py '' then'' @ [NL, NL]),
      (Block_latex, example_formula), (Text, [NL, NL] @ py ''Done.'')] =
     [(Text, py ''Solve $x+1=2$ then'' @ [NL, NL]), (Block_latex, example_formula),
      (Text, [NL, NL] @ py ''Done.'')]"
  by (simp add: example_defs seg_eval py_def)

lemma mixed_merged:
  "merged_blocks
     [(Text, py ''Solve $x+1=2$ then'' @ [NL, NL]), (Block_latex, example_formula),
      (Text, [NL, NL] @ py ''Done.'')] =
     [(Text, py ''Solve $x+1=2$ then'' @ [NL, NL]), (Block_latex, example_formula),
      (Text, [NL, NL] @ py ''Done.'')]"
  by (simp add: example_defs seg_eval py_def)

lemma mixed_render_blocks:
  "render_blocks accepting []
     [(Text, py ''Solve $x+1=2$ then'' @ [NL, NL]), (Block_latex, example_formula),
      (Text, [NL, NL] @ py ''Done.'')] =
     ([Markdown (py ''Solve $x+1=2$ then''), Latex example_formula, Markdown (py ''Done.'')], Returns)"
  by (simp add: example_defs render_eval py_def)

lemma blank_processed: "processed_text example_blank_block = example_blank_block"
  by (simp add: example_defs norm_eval re_eval)

lemma blank_candidate:
  "finditer [DOTALL] re_block_dollar example_blank_block = [(0, 7, [(1, 2, 5)])]"
  by (simp add: example_defs re_eval scan_eval)

lemma blank_all: "all_matches example_blank_block = []"
  by (simp add: example_defs re_eval scan_eval)

lemma blank_filtered: "filtered_matches example_blank_block = []"
  by (simp only: filtered_matches_def sorted_matches_def blank_all)
     (simp add: filter_overlaps_def)

lemma blank_plain:
  "render_plain surf example_blank_block =
     ([Markdown example_blank_block], surf [] (Markdown example_blank_block))"
  by (simp add: example_defs render_eval py_def)

lemma blank_render:
  "render_text_with_latex surf example_blank_block =
     ([Markdown example_blank_block], surf [] (Markdown example_blank_block))"
proof -
  have ne: "example_blank_block \<noteq> []" by (simp add: example_defs py_def)
  show ?thesis
    by (simp only: render_text_with_latex_plain [OF ne blank_processed blank_filtered] blank_plain)
qed

lemma nested_processed: "processed_text example_nested = example_nested"
  by (simp add: example_defs norm_eval re_eval)

lemma nested_all:
  "all_matches example_nested = [(3, 6, Inline, py ''x''), (0, 9, Inline, py ''$x$'')]"
  by (simp add: example_defs re_eval scan_eval)

lemma nested_filtered: "filtered_matches example_nested = [(0, 9, Inline, py ''$x$'')]"
  by (simp only: filtered_matches_def sorted_matches_def nested_all)
     (simp add: filter_overlaps_def filter_step_def overlaps_def)

lemma nested_merged:
  "merged_blocks (text_blocks (result_parts example_nested [(0, 9, Inline, py ''$x$'')])) =
     [(Text, py ''$$x$$'')]"
  by (simp add: example_defs seg_eval py_def)

lemma nested_render_blocks:
  "render_blocks surf [] [(Text, py ''$$x$$'')] =
     ([Markdown (py ''$$x$$'')], surf [] (Markdown (py ''$$x$$'')))"
  by (cases "surf [] (Markdown (py ''$$x$$''))") (simp_all add: render_eval py_def)

lemma nested_render:
  "render_text_with_latex surf example_nested =
     ([Markdown (py ''$$x$$'')], surf [] (Markdown (py ''$$x$$'')))"
proof -
  have ne: "example_nested \<noteq> []" by (simp add: example_defs)
  have "render_text_with_latex surf example_nested = render_blocks surf [] [(Text, py ''$$x$$'')]"
    by (rule render_text_with_latex_blocks [OF ne nested_processed nested_filtered])
       (simp only: nested_merged)
  then show ?thesis by (simp only: nested_render_blocks)
qed


lemma doubled_processed:
  "processed_text example_doubled = example_doubled_repaired"
  by (simp add: example_defs example_doubled_repaired_def norm_eval re_eval)

lemma doubled_all:
  "all_matches example_doubled_repaired = [(0, 10, Block, py ''a=b '' @ [BS])]"
  by (simp add: example_doubled_repaired_def re_eval scan_eval)

lemma doubled_filtered:
  "filtered_matches example_doubled_repaired = [(0, 10, Block, py ''a=b '' @ [BS])]"
  by (simp only: filtered_matches_def sorted_matches_def doubled_all)
     (simp add: filter_overlaps_def filter_step_def overlaps_def)

lemma doubled_merged:
  "merged_blocks (text_blocks (result_parts example_doubled_repaired
      [(0, 10, Block, py ''a=b '' @ [BS])])) = [(Block_latex, py ''a=b '' @ [BS])]"
  by (simp add: example_doubled_repaired_def seg_eval py_def)

lemma doubled_render:
  "render_text_with_latex accepting example_doubled = ([Latex (py ''a=b '' @ [BS])], Returns)"
proof -
  have ne: "example_doubled \<noteq> []" by (simp add: example_defs)
  have "render_text_with_latex accepting example_doubled =
        render_blocks accepting [] [(Block_latex, py ''a=b '' @ [BS])]"
    by (rule render_text_with_latex_blocks [OF ne doubled_processed doubled_filtered])
       (simp only: doubled_merged)
  also have "\<dots> = ([Latex (py ''a=b '' @ [BS])], Returns)"
    by (simp add: render_eval py_def)
  finally show ?thesis .
qed

lemma linebreak_processed: "processed_text example_linebreak = example_linebreak"
  by (simp add: example_defs norm_eval re_eval)

lemma linebreak_all:
  "all_matches example_linebreak = [(0, 8, Block, py ''a'' @ [BS, BS] @ py ''b'')]"
  by (simp add: example_defs re_eval scan_eval)

lemma linebreak_filtered:
  "filtered_matches example_linebreak = [(0, 8, Block, py ''a'' @ [BS, BS] @ py ''b'')]"
  by (simp only: filtered_matches_def sorted_matches_def linebreak_all)
     (simp add: filter_overlaps_def filter_step_def overlaps_def)

lemma linebreak_merged:
  "merged_blocks (text_blocks (result_parts example_linebreak
      [(0, 8, Block, py ''a'' @ [BS, BS] @ py ''b'')])) =
     [(Block_latex, py ''a'' @ [BS, BS] @ py ''b'')]"
  by (simp add: example_defs seg_eval py_def)

lemma linebreak_cleaned:
  "cleaned_formula (py ''a'' @ [BS, BS] @ py ''b'') = py ''a'' @ [BS] @ py ''b''"
  by (simp add: cleaned_formula_def py_def py_replace.simps strip_def lstrip_def rstrip_def isspace_def)

lemma linebreak_content: "has_real_content (py ''a'' @ [BS, BS] @ py ''b'')"
  by (simp add: has_real_content_iff isspace_def py_def)

lemma linebreak_blocks:
  "render_text_with_latex surf example_linebreak =
     render_blocks surf [] [(Block_latex, py ''a'' @ [BS, BS] @ py ''b'')]"
proof -
  have ne: "example_linebreak \<noteq> []" by (simp add: example_defs)
  show ?thesis
    by (rule render_text_with_latex_blocks [OF ne linebreak_processed linebreak_filtered])
       (simp only: linebreak_merged)
qed

lemma linebreak_render:
  "render_text_with_latex latex_rejecting example_linebreak =
     ([Latex (py ''a'' @ [BS, BS] @ py ''b''), Latex (py ''a'' @ [BS] @ py ''b''),
       Markdown ([BACKTICK] @ py ''a'' @ [BS] @ py ''b'' @ [BACKTICK])], Returns)"
  by (simp only: linebreak_blocks render_blocks.simps linebreak_cleaned
        render_block_math [OF linebreak_content])
     (simp add: latex_rejecting_def)

lemma linebreak_render_interrupted:
  "render_text_with_latex latex_interrupted example_linebreak =
     ([Latex (py ''a'' @ [BS, BS] @ py ''b'')], Raises_Other)"
  by (simp only: linebreak_blocks render_blocks.simps linebreak_cleaned
        render_block_math [OF linebreak_content])
     (simp add: latex_interrupted_def)

lemma linebreak_render_all_rejecting:
  "render_text_with_latex all_rejecting example_linebreak =
     ([Latex (py ''a'' @ [BS, BS] @ py ''b''), Latex (py ''a'' @ [BS] @ py ''b''),
       Markdown ([BACKTICK] @ py ''a'' @ [BS] @ py ''b'' @ [BACKTICK])], Raises_Exception)"
  by (simp only: linebreak_blocks render_blocks.simps linebreak_cleaned
        render_block_math [OF linebreak_content])
     (simp add: all_rejecting_def)

lemma mixed_render:
  "render_text_with_latex accepting example_mixed =
     ([Markdown (py ''Solve $x+1=2$ then''), Latex example_formula, Markdown (py ''Done.'')],
      Returns)"
proof -
  have ne: "example_mixed \<noteq> []" by (simp add: example_defs)
  have "render_text_with_latex accepting example_mixed =
        render_blocks accepting []
          [(Text, py ''Solve $x+1=2$ then'' @ [NL, NL]), (Block_latex, example_formula),
           (Text, [NL, NL] @ py ''Done.'')]"
    by (rule render_text_with_latex_blocks [OF ne mixed_processed mixed_filtered])
       (simp only: mixed_parts mixed_blocks mixed_merged)
  then show ?thesis by (simp only: mixed_render_blocks)
qed








lemma mixed_text_blocks:
  "text_blocks (result_parts example_mixed (filtered_matches example_mixed)) =
     [(Text, py ''Solve $x+1=2$ then'' @ [NL, NL]), (Block_latex, example_formula),
      (Text, [NL, NL] @ py ''Done.'')]"
  by (simp only: mixed_filtered mixed_parts mixed_blocks)

section \<open>Plain text\<close>



section \<open>Texts with one formula\<close>

lemma after_bs_ok_append: "after_bs_ok r \<Longrightarrow> after_bs_ok (r @ v)"
  by (cases r) (simp_all add: after_bs_ok_def)


lemma safe_append: "safe u \<Longrightarrow> safe v \<Longrightarrow> safe (u @ v)"
  by (induction u) (auto simp: safe_at_def after_bs_ok_append)















lemma lit_hd_fail: "\<not> lit_eq fl c x \<Longrightarrow> rmatch fl s (Seq (Lit c) b) (q, x # r, g) = []"
  by (simp add: rmatch.simps one_char_def)


lemma lit_hd_ok:
  "lit_eq fl c x \<Longrightarrow> rmatch fl s (Seq (Lit c) b) (q, x # r, g) = rmatch fl s b (Suc q, r, g)"
  by (simp add: rmatch.simps one_char_def)



lemma lit_last_nil: "rmatch fl s (Lit c) (q, [], g) = []"
  by (simp add: rmatch.simps one_char_def)





lemma safe_at_not_dollar: "safe_at x r \<Longrightarrow> x \<noteq> DOLLAR"
  by (simp add: safe_at_def)

lemma safe_at_bs:
  "safe_at BS r \<Longrightarrow> \<exists>y r'. r = y # r' \<and> y \<noteq> BS \<and> y \<noteq> LBRACKET \<and> y \<noteq> RBRACKET \<and>
      y \<noteq> LPAREN \<and> y \<noteq> RPAREN"
  by (cases r) (simp_all add: safe_at_def after_bs_ok_def)






lemma fix_escape_open:
  "safe_at x r \<Longrightarrow> rmatch [] s re_fix_escape (q, x # r, g) = []"
proof (cases "x = BS")
  case False
  then show ?thesis by (simp add: re_fix_escape_def lit_hd_fail)
next
  case True
  assume "safe_at x r"
  with True safe_at_bs obtain y r' where "r = y # r'" "y \<noteq> BS" by blast
  with True show ?thesis
    by (simp add: re_fix_escape_def lit_hd_ok rmatch.simps one_char_def)
qed





















































lemma group_one:
  "group_text (w0 @ (a # b # f @ cl) @ w1)
     [(1, Suc (Suc (length w0)), Suc (Suc (length w0 + length f)))] 1 = f"
  "group_text (w0 @ (a # f @ cl) @ w1) [(1, Suc (length w0), Suc (length w0 + length f))] 1 = f"
  by (simp_all add: group_text_def)















































lemma safe_examples:
  "safe (py ''hi '')" "safe (py '' yo'')" "safe (py ''x'')" "safe ([BS] @ py ''frac{1}{2}'')"
  by (simp_all add: py_def safe_at_def after_bs_ok_def isspace_def)

section \<open>Texts with block formulas\<close>

lemma safe_blocks_Cons [simp]:
  "safe_blocks ((w, f) # d) \<longleftrightarrow> safe w \<and> safe f \<and> has_real_content f \<and> safe_blocks d"
  by (auto simp: safe_blocks_def)

lemma safe_blocks_Nil [simp]: "safe_blocks []"
  by (simp add: safe_blocks_def)


























section \<open>The claims\<close>

text \<open>
  Claim C1.  For every input and every surface, each call the program makes carries
  content: the argument of every \<^verbatim>\<open>st.markdown\<close> and every \<^verbatim>\<open>st.latex\<close> call passes
  \<open>has_real_content\<close>, that is, it is not empty once all whitespace is removed.
\<close>

theorem every_render_call_has_content:
  "\<forall>c \<in> set (fst (render_text_with_latex surf text0)).
     has_real_content (payload c) \<and> filter (\<lambda>x. \<not> isspace x) (payload c) \<noteq> []"
proof -
  have "\<forall>c \<in> set (fst (render_text_with_latex surf text0)). has_real_content (payload c)"
    using render_plain_payloads render_blocks_payloads [of "[]"]
    by (simp add: render_text_with_latex_def Let_def)
  then show ?thesis by (simp add: has_real_content_filter)
qed

lemma linebreak_fallback_called:
  "Markdown ([BACKTICK] @ py ''a'' @ [BS] @ py ''b'' @ [BACKTICK]) \<in>
     set (fst (render_text_with_latex latex_rejecting example_linebreak))"
  by (simp only: linebreak_render fst_conv) simp

theorem every_render_call_has_content_witness:
  "Markdown ([BACKTICK] @ py ''a'' @ [BS] @ py ''b'' @ [BACKTICK]) \<in>
     set (fst (render_text_with_latex latex_rejecting example_linebreak)) \<and>
   has_real_content (payload (Markdown ([BACKTICK] @ py ''a'' @ [BS] @ py ''b'' @ [BACKTICK]))) \<and>
   filter (\<lambda>x. \<not> isspace x)
     (payload (Markdown ([BACKTICK] @ py ''a'' @ [BS] @ py ''b'' @ [BACKTICK]))) \<noteq> []"
  using every_render_call_has_content [of latex_rejecting example_linebreak]
    linebreak_fallback_called
  by blast

text \<open>
  Claim C3.  On the mixed example of the specification the program makes exactly three
  calls, in this order: the markup primitive with \<^verbatim>\<open>Solve $x+1=2$ then\<close>, the math
  primitive with the formula, the markup primitive with \<^verbatim>\<open>Done.\<close>
\<close>

theorem mixed_example_three_blocks:
  "render_text_with_latex accepting example_mixed =
     ([Markdown (py ''Solve $x+1=2$ then''), Latex example_formula, Markdown (py ''Done.'')],
      Returns)"
  by (rule mixed_render)

text \<open>
  Claim C4, as the code has it.  For a block formula with content: when the first call
  of the math primitive raises an \<^verbatim>\<open>Exception\<close>, exactly one retry follows, with the
  formula after \<^verbatim>\<open>replace('\\\\', '\\').strip()\<close>, which has content too; when the retry
  raises (whatever it raises), the markup primitive is called with that same cleaned
  formula between backticks (not with the original formula), and the block ends as that
  call ends.  When the first call raises something that is not an \<^verbatim>\<open>Exception\<close>, there
  is no retry and the exception leaves the block.  The blocks after it are rendered
  exactly when the block returns; otherwise its exception leaves the program.
\<close>

theorem math_block_retry_and_fallback:
  assumes "has_real_content f"
  shows "has_real_content (cleaned_formula f) \<and>
     (surf tr (Latex f) = Raises_Exception \<longrightarrow>
        render_block surf tr (Block_latex, f) =
          (if surf (tr @ [Latex f]) (Latex (cleaned_formula f)) = Returns
           then (tr @ [Latex f, Latex (cleaned_formula f)], Returns)
           else (tr @ [Latex f, Latex (cleaned_formula f),
                       Markdown ([BACKTICK] @ cleaned_formula f @ [BACKTICK])],
                 surf (tr @ [Latex f, Latex (cleaned_formula f)])
                      (Markdown ([BACKTICK] @ cleaned_formula f @ [BACKTICK]))))) \<and>
     (surf tr (Latex f) = Raises_Other \<longrightarrow>
        render_block surf tr (Block_latex, f) = (tr @ [Latex f], Raises_Other)) \<and>
     (snd (render_block surf tr (Block_latex, f)) = Returns \<longrightarrow>
        render_blocks surf tr ((Block_latex, f) # bs) =
          render_blocks surf (fst (render_block surf tr (Block_latex, f))) bs) \<and>
     (snd (render_block surf tr (Block_latex, f)) \<noteq> Returns \<longrightarrow>
        render_blocks surf tr ((Block_latex, f) # bs) = render_block surf tr (Block_latex, f))"
proof -
  have "snd (render_block surf tr (Block_latex, f)) = Returns \<longrightarrow>
        render_blocks surf tr ((Block_latex, f) # bs) =
          render_blocks surf (fst (render_block surf tr (Block_latex, f))) bs"
    by (cases "render_block surf tr (Block_latex, f)") simp
  moreover have "snd (render_block surf tr (Block_latex, f)) \<noteq> Returns \<longrightarrow>
        render_blocks surf tr ((Block_latex, f) # bs) = render_block surf tr (Block_latex, f)"
    by (cases "render_block surf tr (Block_latex, f)") (simp split: outcome.splits)
  moreover have "surf tr (Latex f) = Raises_Exception \<longrightarrow>
        render_block surf tr (Block_latex, f) =
          (if surf (tr @ [Latex f]) (Latex (cleaned_formula f)) = Returns
           then (tr @ [Latex f, Latex (cleaned_formula f)], Returns)
           else (tr @ [Latex f, Latex (cleaned_formula f),
                       Markdown ([BACKTICK] @ cleaned_formula f @ [BACKTICK])],
                 surf (tr @ [Latex f, Latex (cleaned_formula f)])
                      (Markdown ([BACKTICK] @ cleaned_formula f @ [BACKTICK]))))"
    by (simp add: render_block_math [OF assms])
  moreover have "surf tr (Latex f) = Raises_Other \<longrightarrow>
        render_block surf tr (Block_latex, f) = (tr @ [Latex f], Raises_Other)"
    by (simp add: render_block_math [OF assms])
  ultimately show ?thesis using has_real_content_cleaned [OF assms] by blast
qed

text \<open>
  Three runs on the block formula \<^verbatim>\<open>a\\b\<close> followed by the text \<^verbatim>\<open>Done.\<close>: with a
  math primitive that raises an \<^verbatim>\<open>Exception\<close> the retry and the literal follow and the
  text is rendered; with a math primitive that raises something else, and with a markup
  primitive that raises, the exception leaves the program and the text is not rendered.
\<close>

theorem math_block_retry_and_fallback_witness:
  "has_real_content (py ''a'' @ [BS, BS] @ py ''b'') \<and>
   latex_rejecting [] (Latex (py ''a'' @ [BS, BS] @ py ''b'')) = Raises_Exception \<and>
   render_blocks latex_rejecting []
       [(Block_latex, py ''a'' @ [BS, BS] @ py ''b''), (Text, py ''Done.'')] =
     ([Latex (py ''a'' @ [BS, BS] @ py ''b''), Latex (py ''a'' @ [BS] @ py ''b''),
       Markdown ([BACKTICK] @ py ''a'' @ [BS] @ py ''b'' @ [BACKTICK]),
       Markdown (py ''Done.'')], Returns) \<and>
   latex_interrupted [] (Latex (py ''a'' @ [BS, BS] @ py ''b'')) = Raises_Other \<and>
   render_blocks latex_interrupted []
       [(Block_latex, py ''a'' @ [BS, BS] @ py ''b''), (Text, py ''Done.'')] =
     ([Latex (py ''a'' @ [BS, BS] @ py ''b'')], Raises_Other) \<and>
   all_rejecting [] (Latex (py ''a'' @ [BS, BS] @ py ''b'')) = Raises_Exception \<and>
   render_blocks all_rejecting []
       [(Block_latex, py ''a'' @ [BS, BS] @ py ''b''), (Text, py ''Done.'')] =
     ([Latex (py ''a'' @ [BS, BS] @ py ''b''), Latex (py ''a'' @ [BS] @ py ''b''),
       Markdown ([BACKTICK] @ py ''a'' @ [BS] @ py ''b'' @ [BACKTICK])], Raises_Exception)"
proof -
  let ?f = "py ''a'' @ [BS, BS] @ py ''b''"
  let ?bs = "[(Text, py ''Done.'')]"
  have cl: "cleaned_formula (py ''a'' @ BS # BS # py ''b'') = py ''a'' @ BS # py ''b''"
    using linebreak_cleaned by simp
  have last_block: "\<And>surf tr. render_blocks surf tr ?bs =
      (tr @ [Markdown (py ''Done.'')], surf tr (Markdown (py ''Done.'')))"
    by (simp add: render_eval py_def split: outcome.splits)
  note t1 = math_block_retry_and_fallback [OF linebreak_content, of latex_rejecting "[]" ?bs]
  note t2 = math_block_retry_and_fallback [OF linebreak_content, of latex_interrupted "[]" ?bs]
  note t3 = math_block_retry_and_fallback [OF linebreak_content, of all_rejecting "[]" ?bs]
  have r1: "latex_rejecting [] (Latex ?f) = Raises_Exception" by (simp add: latex_rejecting_def)
  have r2: "latex_interrupted [] (Latex ?f) = Raises_Other" by (simp add: latex_interrupted_def)
  have r3: "all_rejecting [] (Latex ?f) = Raises_Exception" by (simp add: all_rejecting_def)
  from t1 r1 have b1: "render_block latex_rejecting [] (Block_latex, ?f) =
      ([Latex ?f, Latex (py ''a'' @ [BS] @ py ''b''),
        Markdown ([BACKTICK] @ py ''a'' @ [BS] @ py ''b'' @ [BACKTICK])], Returns)"
    by (simp add: cl latex_rejecting_def)
  from t2 r2 have b2: "render_block latex_interrupted [] (Block_latex, ?f) =
      ([Latex ?f], Raises_Other)"
    by simp
  from t3 r3 have b3: "render_block all_rejecting [] (Block_latex, ?f) =
      ([Latex ?f, Latex (py ''a'' @ [BS] @ py ''b''),
        Markdown ([BACKTICK] @ py ''a'' @ [BS] @ py ''b'' @ [BACKTICK])], Raises_Exception)"
    by (simp add: cl all_rejecting_def)
  from t1 have "snd (render_block latex_rejecting [] (Block_latex, ?f)) = Returns \<longrightarrow>
      render_blocks latex_rejecting [] ((Block_latex, ?f) # ?bs) =
        render_blocks latex_rejecting (fst (render_block latex_rejecting [] (Block_latex, ?f))) ?bs"
    by blast
  with b1 have "render_blocks latex_rejecting [] ((Block_latex, ?f) # ?bs) =
      render_blocks latex_rejecting
        [Latex ?f, Latex (py ''a'' @ [BS] @ py ''b''),
         Markdown ([BACKTICK] @ py ''a'' @ [BS] @ py ''b'' @ [BACKTICK])] ?bs"
    by (simp only: snd_conv fst_conv simp_thms)
  also have "\<dots> =
      ([Latex ?f, Latex (py ''a'' @ [BS] @ py ''b''),
        Markdown ([BACKTICK] @ py ''a'' @ [BS] @ py ''b'' @ [BACKTICK]),
        Markdown (py ''Done.'')], Returns)"
    by (simp only: last_block) (simp add: latex_rejecting_def)
  finally have c1: "render_blocks latex_rejecting [] ((Block_latex, ?f) # ?bs) =
      ([Latex ?f, Latex (py ''a'' @ [BS] @ py ''b''),
        Markdown ([BACKTICK] @ py ''a'' @ [BS] @ py ''b'' @ [BACKTICK]),
        Markdown (py ''Done.'')], Returns)" .
  from t2 have "snd (render_block latex_interrupted [] (Block_latex, ?f)) \<noteq> Returns \<longrightarrow>
      render_blocks latex_interrupted [] ((Block_latex, ?f) # ?bs) =
        render_block latex_interrupted [] (Block_latex, ?f)"
    by blast
  with b2 have c2: "render_blocks latex_interrupted [] ((Block_latex, ?f) # ?bs) =
      ([Latex ?f], Raises_Other)"
    by (simp only: snd_conv outcome.distinct simp_thms not_False_eq_True)
  from t3 have "snd (render_block all_rejecting [] (Block_latex, ?f)) \<noteq> Returns \<longrightarrow>
      render_blocks all_rejecting [] ((Block_latex, ?f) # ?bs) =
        render_block all_rejecting [] (Block_latex, ?f)"
    by blast
  with b3 have c3: "render_blocks all_rejecting [] ((Block_latex, ?f) # ?bs) =
      ([Latex ?f, Latex (py ''a'' @ [BS] @ py ''b''),
        Markdown ([BACKTICK] @ py ''a'' @ [BS] @ py ''b'' @ [BACKTICK])], Raises_Exception)"
    by (simp only: snd_conv outcome.distinct simp_thms not_False_eq_True)
  from linebreak_content r1 r2 r3 c1 c2 c3 show ?thesis by blast
qed

text \<open>
  The claim as written fails.  With a math primitive that always raises an
  \<^verbatim>\<open>Exception\<close>, the formula \<^verbatim>\<open>a\\b\<close> (two backslashes) ends as the literal \<^verbatim>\<open>`a\b`\<close>,
  with one backslash.  With a math primitive that raises something that is not an
  \<^verbatim>\<open>Exception\<close>, there is one call only and the exception leaves the program.  When the
  markup primitive raises too, its exception leaves the program.
\<close>

theorem fallback_literal_not_raw_counterexample:
  "fst (render_text_with_latex latex_rejecting example_linebreak) =
     [Latex (py ''a'' @ [BS, BS] @ py ''b''), Latex (py ''a'' @ [BS] @ py ''b''),
      Markdown ([BACKTICK] @ py ''a'' @ [BS] @ py ''b'' @ [BACKTICK])] \<and>
   Markdown ([BACKTICK] @ py ''a'' @ [BS, BS] @ py ''b'' @ [BACKTICK]) \<notin>
     set (fst (render_text_with_latex latex_rejecting example_linebreak)) \<and>
   render_text_with_latex latex_interrupted example_linebreak =
     ([Latex (py ''a'' @ [BS, BS] @ py ''b'')], Raises_Other) \<and>
   render_text_with_latex all_rejecting example_linebreak =
     ([Latex (py ''a'' @ [BS, BS] @ py ''b''), Latex (py ''a'' @ [BS] @ py ''b''),
       Markdown ([BACKTICK] @ py ''a'' @ [BS] @ py ''b'' @ [BACKTICK])], Raises_Exception)"
proof -
  have "Markdown ([BACKTICK] @ py ''a'' @ [BS, BS] @ py ''b'' @ [BACKTICK]) \<notin>
        set [Latex (py ''a'' @ [BS, BS] @ py ''b''), Latex (py ''a'' @ [BS] @ py ''b''),
             Markdown ([BACKTICK] @ py ''a'' @ [BS] @ py ''b'' @ [BACKTICK])]"
    by (simp add: py_def)
  then show ?thesis
    by (simp only: linebreak_render linebreak_render_interrupted linebreak_render_all_rejecting
          fst_conv simp_thms)
qed

text \<open>
  Claim C5, as the code has it.  On \<^verbatim>\<open>$$   $$\<close> the block pattern matches the whole
  text, the trimmed content is empty and the candidate is dropped, so no span is
  accepted; the text itself has content, and the program makes exactly one call: the
  markup primitive with the whole text.  The math primitive is not called.
\<close>

theorem blank_block_rendered_as_text:
  "finditer [DOTALL] re_block_dollar example_blank_block = [(0, 7, [(1, 2, 5)])] \<and>
   strip (group_text example_blank_block [(1, 2, 5)] 1) = [] \<and>
   filtered_matches (processed_text example_blank_block) = [] \<and>
   render_text_with_latex surf example_blank_block =
     ([Markdown example_blank_block], surf [] (Markdown example_blank_block))"
proof -
  have "strip (group_text example_blank_block [(1, 2, 5)] 1) = []"
    by (simp add: example_defs group_text_def strip_def lstrip_def rstrip_def isspace_def py_def)
  then show ?thesis
    by (simp only: blank_candidate blank_processed blank_filtered blank_render simp_thms)
qed

theorem blank_block_rendered_as_text_witness:
  "render_text_with_latex accepting example_blank_block = ([Markdown (py ''$$   $$'')], Returns)"
  using blank_block_rendered_as_text [of accepting]
  by (simp add: accepting_def example_blank_block_def)

theorem blank_block_counterexample:
  "fst (render_text_with_latex accepting example_blank_block) = [Markdown example_blank_block] \<and>
   fst (render_text_with_latex accepting example_blank_block) \<noteq> []"
  by (simp only: blank_render fst_conv simp_thms list.distinct not_False_eq_True)

text \<open>
  Claim C6, as the code has it.  On \<^verbatim>\<open>\( $x$ \)\<close> the dollar span (3 to 6) and the
  backslash-paren span (0 to 9, trimmed content \<^verbatim>\<open>$x$\<close>) are both collected; after
  sorting, the span starting at 0 is accepted and the inner one is discarded as
  overlapping.  The accepted span is an inline formula, so it is written back as
  \<^verbatim>\<open>$\<close> content \<^verbatim>\<open>$\<close> into the text buffer, and the program makes exactly one call: the
  markup primitive with \<^verbatim>\<open>$$x$$\<close>.  The math primitive is not called.
\<close>

theorem nested_span_rendered_as_text:
  "all_matches (processed_text example_nested) =
     [(3, 6, Inline, py ''x''), (0, 9, Inline, py ''$x$'')] \<and>
   filtered_matches (processed_text example_nested) = [(0, 9, Inline, py ''$x$'')] \<and>
   render_text_with_latex surf example_nested =
     ([Markdown (py ''$$x$$'')], surf [] (Markdown (py ''$$x$$'')))"
  by (simp only: nested_processed nested_all nested_filtered nested_render simp_thms)

theorem nested_span_rendered_as_text_witness:
  "render_text_with_latex accepting example_nested = ([Markdown (py ''$$x$$'')], Returns)"
  using nested_span_rendered_as_text [of accepting]
  by (simp add: accepting_def)

theorem nested_not_math_block_counterexample:
  "fst (render_text_with_latex accepting example_nested) = [Markdown (py ''$$x$$'')] \<and>
   fst (render_text_with_latex accepting example_nested) \<noteq> [Latex (py ''x'')]"
proof -
  have "[Markdown (py ''$$x$$'')] \<noteq> [Latex (py ''x'')]" by simp
  then show ?thesis by (simp only: nested_render fst_conv simp_thms)
qed

text \<open>
  Claim C7, as the code has it.  The repair, applied to each line on its own, is the
  function of the specification: every run of two or more backslashes directly
  followed by \<^verbatim>\<open>[\<close> or \<^verbatim>\<open>(\<close> loses exactly one backslash and nothing else changes
  (\<^verbatim>\<open>\frac{1}{2}\<close> stays as it is).  On \<^verbatim>\<open>\\[ a=b \\]\<close> only the opening pair is
  repaired, since \<^verbatim>\<open>]\<close> is not among the characters of the pattern: the text becomes
  \<^verbatim>\<open>\[ a=b \\]\<close> and the program makes one call of the math primitive, with the
  formula \<^verbatim>\<open>a=b \\<close> (a backslash stays at its end).
\<close>

theorem repair_reduces_runs_by_one:
  "processed_text txt = join_nl (map spec_reduce_runs (split_nl txt)) \<and>
   processed_text ([BS] @ py ''frac{1}{2}'') = [BS] @ py ''frac{1}{2}'' \<and>
   processed_text example_doubled = example_doubled_repaired \<and>
   render_text_with_latex accepting example_doubled = ([Latex (py ''a=b '' @ [BS])], Returns)"
proof -
  have "processed_text ([BS] @ py ''frac{1}{2}'') = [BS] @ py ''frac{1}{2}''"
    by (simp add: norm_eval re_eval)
  then show ?thesis
    by (simp only: processed_text_reduce_runs [symmetric] doubled_processed doubled_render
          simp_thms)
qed

theorem repair_reduces_runs_by_one_witness:
  "join_nl (map spec_reduce_runs (split_nl example_doubled)) = example_doubled_repaired"
proof -
  from repair_reduces_runs_by_one [of example_doubled]
  have "processed_text example_doubled = join_nl (map spec_reduce_runs (split_nl example_doubled))"
    and "processed_text example_doubled = example_doubled_repaired"
    by blast+
  then show ?thesis by simp
qed

theorem doubled_closing_not_repaired_counterexample:
  "fst (render_text_with_latex accepting example_doubled) = [Latex (py ''a=b '' @ [BS])] \<and>
   fst (render_text_with_latex accepting example_doubled) \<noteq> [Latex (py ''a=b'')]"
proof -
  have "[Latex (py ''a=b '' @ [BS])] \<noteq> [Latex (py ''a=b'')]" by (simp add: py_def)
  then show ?thesis by (simp only: doubled_render fst_conv simp_thms)
qed

text \<open>
  Claim C8.  For an input that is empty or consists of whitespace only, no span is
  found, there are no segments, and the program returns without a call and without an
  exception, whatever the surface.
\<close>

theorem blank_input_renders_nothing:
  assumes "\<forall>c \<in> set text0. isspace c"
  shows "filtered_matches (processed_text text0) = [] \<and>
         result_parts (processed_text text0) [] = [] \<and>
         render_text_with_latex surf text0 = ([], Returns)"
proof -
  from all_space_no_special [OF assms] have d: "DOLLAR \<notin> set text0" and b: "BS \<notin> set text0"
    by auto
  have p: "processed_text text0 = text0" by (rule processed_text_plain [OF b])
  have f: "filtered_matches text0 = []" by (rule filtered_matches_plain [OF d b])
  from assms have h: "\<not> has_real_content text0" by (simp add: has_real_content_iff)
  from h have "result_parts text0 [] = []"
    by (simp add: result_parts_def Let_def)
  with p f h show ?thesis
    by (simp add: render_text_with_latex_def render_plain_def Let_def)
qed

theorem blank_input_renders_nothing_witness:
  "isspace 32 \<and> isspace NL \<and> isspace 9 \<and> isspace 12288 \<and>
   render_text_with_latex accepting [32, NL, 9, 12288] = ([], Returns)"
proof -
  have s: "\<forall>c \<in> set [32, NL, 9, 12288]. isspace c" by (simp add: isspace_def)
  from blank_input_renders_nothing [OF s, of accepting] s show ?thesis by simp
qed




text \<open>
  Claim C10, as the code has it.  In the list built by the first merge no two
  consecutive entries are text: a text entry that is not the last entry is followed by
  a block formula.  Indeed a buffer flushed inside the loop is flushed at a block
  formula, which has content and is appended right after it; the buffer flushed after
  the loop is the last entry and nothing follows it.  So whenever the second merge
  meets a text block its buffer is empty (the branch that would join two texts with a
  blank line is never taken), and the second merge returns the list unchanged.
\<close>

theorem first_merge_alternates_second_merge_identity:
  "(\<forall>i. Suc i < length (text_blocks (result_parts txt ms)) \<longrightarrow>
        \<not> (fst (text_blocks (result_parts txt ms) ! i) = Text \<and>
           fst (text_blocks (result_parts txt ms) ! Suc i) = Text)) \<and>
   (\<forall>i. Suc i < length (text_blocks (result_parts txt ms)) \<and>
        fst (text_blocks (result_parts txt ms) ! i) = Text \<longrightarrow>
        fst (text_blocks (result_parts txt ms) ! Suc i) = Block_latex) \<and>
   (\<forall>k. k < length (text_blocks (result_parts txt ms)) \<and>
        fst (text_blocks (result_parts txt ms) ! k) = Text \<longrightarrow>
        fst (fold merged_blocks_step (take k (text_blocks (result_parts txt ms))) ([], [])) = []) \<and>
   merged_blocks (text_blocks (result_parts txt ms)) = text_blocks (result_parts txt ms) \<and>
   (\<forall>p \<in> set (result_parts txt ms). fst p = Block_latex \<longrightarrow>
      (\<forall>cur bs. text_blocks_step p (cur, bs) =
         (if has_real_content cur then ([], bs @ [(Text, cur), (Block_latex, snd p)])
          else (cur, bs @ [(Block_latex, snd p)]))))"
proof -
  have ok: "blocks_ok (text_blocks (result_parts txt ms))"
    by (rule text_blocks_ok [OF result_parts_good])
  have step: "\<forall>p \<in> set (result_parts txt ms). fst p = Block_latex \<longrightarrow>
      (\<forall>cur bs. text_blocks_step p (cur, bs) =
         (if has_real_content cur then ([], bs @ [(Text, cur), (Block_latex, snd p)])
          else (cur, bs @ [(Block_latex, snd p)])))"
  proof (intro ballI impI allI)
    fix p cur bs
    assume "p \<in> set (result_parts txt ms)" and b: "fst p = Block_latex"
    with result_parts_good [of "txt" "ms"] have "has_real_content (snd p)"
      by (simp add: good_parts_def)
    with b show "text_blocks_step p (cur, bs) =
         (if has_real_content cur then ([], bs @ [(Text, cur), (Block_latex, snd p)])
          else (cur, bs @ [(Block_latex, snd p)]))"
      by (cases p) (simp add: text_blocks_step_def)
  qed
  have "(\<forall>i. Suc i < length (text_blocks (result_parts txt ms)) \<longrightarrow>
        \<not> (fst (text_blocks (result_parts txt ms) ! i) = Text \<and>
           fst (text_blocks (result_parts txt ms) ! Suc i) = Text)) \<and>
   (\<forall>i. Suc i < length (text_blocks (result_parts txt ms)) \<and>
        fst (text_blocks (result_parts txt ms) ! i) = Text \<longrightarrow>
        fst (text_blocks (result_parts txt ms) ! Suc i) = Block_latex) \<and>
   (\<forall>k. k < length (text_blocks (result_parts txt ms)) \<and>
        fst (text_blocks (result_parts txt ms) ! k) = Text \<longrightarrow>
        fst (fold merged_blocks_step (take k (text_blocks (result_parts txt ms))) ([], [])) = []) \<and>
   merged_blocks (text_blocks (result_parts txt ms)) = text_blocks (result_parts txt ms)"
    using blocks_ok_adjacent [OF ok] no_join [OF ok] merged_blocks_id [OF ok]
    by (intro conjI allI impI) auto
  with step show ?thesis by blast
qed

theorem first_merge_alternates_second_merge_identity_witness:
  "text_blocks (result_parts example_mixed (filtered_matches example_mixed)) =
     [(Text, py ''Solve $x+1=2$ then'' @ [NL, NL]), (Block_latex, example_formula),
      (Text, [NL, NL] @ py ''Done.'')] \<and>
   Suc 0 < length (text_blocks (result_parts example_mixed (filtered_matches example_mixed))) \<and>
   fst (text_blocks (result_parts example_mixed (filtered_matches example_mixed)) ! 0) = Text \<and>
   fst (text_blocks (result_parts example_mixed (filtered_matches example_mixed)) ! Suc 0) =
     Block_latex \<and>
   merged_blocks (text_blocks (result_parts example_mixed (filtered_matches example_mixed))) =
     text_blocks (result_parts example_mixed (filtered_matches example_mixed)) \<and>
   (Block_latex, example_formula) \<in> set (result_parts example_mixed (filtered_matches example_mixed)) \<and>
   has_real_content (py ''Solve $x+1=2$ then'' @ [NL, NL]) \<and>
   text_blocks_step (Block_latex, example_formula) (py ''Solve $x+1=2$ then'' @ [NL, NL], []) =
     ([], [(Text, py ''Solve $x+1=2$ then'' @ [NL, NL]), (Block_latex, example_formula)])"
proof -
  let ?tb = "text_blocks (result_parts example_mixed (filtered_matches example_mixed))"
  let ?ps = "result_parts example_mixed (filtered_matches example_mixed)"
  let ?cur = "py ''Solve $x+1=2$ then'' @ [NL, NL]"
  note t = first_merge_alternates_second_merge_identity [of example_mixed "filtered_matches example_mixed"]
  have h: "Suc 0 < length ?tb \<and> fst (?tb ! 0) = Text"
    by (simp only: mixed_text_blocks) simp
  from t
  have a: "Suc 0 < length ?tb \<and> fst (?tb ! 0) = Text \<longrightarrow> fst (?tb ! Suc 0) = Block_latex"
    and m: "merged_blocks ?tb = ?tb"
    by blast+
  from a h have s: "fst (?tb ! Suc 0) = Block_latex" by blast
  have mem: "(Block_latex, example_formula) \<in> set ?ps"
    by (simp only: mixed_filtered mixed_parts) simp
  have c: "has_real_content ?cur"
    by (simp add: has_real_content_iff isspace_def py_def)
  from t have "\<forall>p \<in> set ?ps. fst p = Block_latex \<longrightarrow>
      (\<forall>cur bs. text_blocks_step p (cur, bs) =
         (if has_real_content cur then ([], bs @ [(Text, cur), (Block_latex, snd p)])
          else (cur, bs @ [(Block_latex, snd p)])))"
    by blast
  with mem have "text_blocks_step (Block_latex, example_formula) (?cur, []) =
         (if has_real_content ?cur then ([], [] @ [(Text, ?cur), (Block_latex, snd (Block_latex, example_formula))])
          else (?cur, [] @ [(Block_latex, snd (Block_latex, example_formula))]))"
    by (metis fst_conv)
  with c have st: "text_blocks_step (Block_latex, example_formula) (?cur, []) =
      ([], [(Text, ?cur), (Block_latex, example_formula)])"
    by (simp only: if_True snd_conv append_Nil)
  from h s m mem c st mixed_text_blocks show ?thesis by blast
qed

text \<open>
  The claim as written fails on the mixed example: the third entry of the list is the
  text buffer flushed after the loop, and the list has no fourth entry, so this flushed
  buffer is not followed by a block formula.
\<close>

theorem final_flush_has_no_successor_counterexample:
  "text_blocks (result_parts example_mixed (filtered_matches example_mixed)) =
     [(Text, py ''Solve $x+1=2$ then'' @ [NL, NL]), (Block_latex, example_formula),
      (Text, [NL, NL] @ py ''Done.'')] \<and>
   fst (text_blocks (result_parts example_mixed (filtered_matches example_mixed)) ! 2) = Text \<and>
   length (text_blocks (result_parts example_mixed (filtered_matches example_mixed))) = 3"
  by (simp only: mixed_text_blocks) simp

end
